theory Spec2Isabelle
  imports Main "HOL-Library.Sublist"
begin

section \<open>JavaScript strings\<close>

text \<open>
  A JavaScript string is a sequence of UTF-16 code units; \<open>length\<close>, \<open>substring\<close> and
  \<open>indexOf\<close> count code units. The string functions below are polymorphic in the type of
  a code unit: they only compare code units for equality.
\<close>

text \<open>
  \<open>s.substring(start, end)\<close>: both indices are clamped to \<open>[0, s.length]\<close> and swapped when
  \<open>start > end\<close>.
\<close>

definition substring :: "'c list \<Rightarrow> int \<Rightarrow> int \<Rightarrow> 'c list" where
  "substring s start end =
     (let n = int (length s);
          a = max 0 (min start n);
          b = max 0 (min end n);
          lo = min a b;
          hi = max a b
      in take (nat (hi - lo)) (drop (nat lo) s))"

text \<open>\<open>s.substring(start)\<close>: the end defaults to \<open>s.length\<close>.\<close>

definition substringFrom :: "'c list \<Rightarrow> int \<Rightarrow> 'c list" where
  "substringFrom s start = substring s start (int (length s))"

text \<open>
  \<open>s.indexOf(sep)\<close>: the index of the first occurrence of \<open>sep\<close> in \<open>s\<close>, or \<open>-1\<close>.
  The empty string occurs at index 0 of every string.
\<close>

fun indexOf :: "'c list \<Rightarrow> 'c list \<Rightarrow> int" where
  "indexOf [] sep = (if sep = [] then 0 else - 1)"
| "indexOf (c # cs) sep =
     (if prefix sep (c # cs) then 0
      else (let r = indexOf cs sep in if r < 0 then - 1 else r + 1))"

section \<open>The segmenter (index.js, lines 216--245)\<close>

text \<open>
  The inner loop of the segmenter:
  \<^verbatim>\<open>
  while (segmentLength > 280) {
      potentialSegment = potentialSegment.substring(0, potentialSegment.length - 1);
      segmentLength = TwitterTextParser.parseTweet(potentialSegment).weightedLength;
  }
  \<close>
  \<open>segmentLength\<close> is the weighted length of \<open>potentialSegment\<close> whenever the loop test
  runs. The weighting function \<open>TwitterTextParser.parseTweet(_).weightedLength\<close> belongs to
  the library twitter-text and is the parameter \<open>weightedLength\<close>; the bound 280 is the
  parameter \<open>maxLen\<close>. The loop need not end for an arbitrary weighting function, so not
  returning is the value \<open>None\<close>.
\<close>

partial_function (option) shortenLoop ::
  "('c list \<Rightarrow> nat) \<Rightarrow> nat \<Rightarrow> 'c list \<Rightarrow> 'c list option" where
  "shortenLoop weightedLength maxLen potentialSegment =
     (if weightedLength potentialSegment > maxLen
      then shortenLoop weightedLength maxLen
             (substring potentialSegment 0 (int (length potentialSegment) - 1))
      else Some potentialSegment)"

text \<open>
  Every segment pushed onto \<open>contentSegments\<close> is recorded together with the branch of the
  loop body that produced it: \<open>SeparatorCut\<close> for the cut at a separator found among the
  first \<open>maxLen\<close> code units (lines 223--225), \<open>BoundaryCut consumed\<close> for the shortened
  candidate (lines 227--242), where \<open>consumed\<close> tells whether a separator starting exactly
  at the end of the candidate was skipped as well (line 239). The labels are not in the
  program; its array \<open>contentSegments\<close> is the list of the first components.
\<close>

datatype cut = SeparatorCut | BoundaryCut bool

text \<open>
  The outer loop \<open>while (remainingContent.length > 0)\<close>, lines 221--245, with the separator
  (\<open>'===='\<close> in the source) and the bound (280 in the source, used both as a number of code
  units and as a weighted length) as parameters.
\<close>

partial_function (option) segmentLoop ::
  "('c list \<Rightarrow> nat) \<Rightarrow> 'c list \<Rightarrow> nat \<Rightarrow> ('c list \<times> cut) list \<Rightarrow> 'c list
     \<Rightarrow> ('c list \<times> cut) list option" where
  "segmentLoop weightedLength separator maxLen contentSegments remainingContent =
     (if length remainingContent > 0 then
        (let separatorIndex = indexOf remainingContent separator in
         if separatorIndex \<ge> 0 \<and> separatorIndex < int maxLen then
           segmentLoop weightedLength separator maxLen
             (contentSegments @ [(substring remainingContent 0 separatorIndex, SeparatorCut)])
             (substringFrom remainingContent (separatorIndex + int (length separator)))
         else
           Option.bind
             (shortenLoop weightedLength maxLen (substring remainingContent 0 (int maxLen)))
             (\<lambda>segment.
                let separatorIndex = indexOf remainingContent separator in
                if separatorIndex = int (length segment) then
                  segmentLoop weightedLength separator maxLen
                    (contentSegments @ [(segment, BoundaryCut True)])
                    (substringFrom remainingContent (separatorIndex + int (length separator)))
                else
                  segmentLoop weightedLength separator maxLen
                    (contentSegments @ [(segment, BoundaryCut False)])
                    (substringFrom remainingContent (int (length segment)))))
      else Some contentSegments)"

declare shortenLoop.simps [code] segmentLoop.simps [code]

definition segmentTrace ::
  "('c list \<Rightarrow> nat) \<Rightarrow> 'c list \<Rightarrow> nat \<Rightarrow> 'c list \<Rightarrow> ('c list \<times> cut) list option" where
  "segmentTrace weightedLength separator maxLen content =
     segmentLoop weightedLength separator maxLen [] content"

text \<open>The array \<open>contentSegments\<close> after the loop.\<close>

definition segmentContent ::
  "('c list \<Rightarrow> nat) \<Rightarrow> 'c list \<Rightarrow> nat \<Rightarrow> 'c list \<Rightarrow> 'c list list option" where
  "segmentContent weightedLength separator maxLen content =
     map_option (map fst) (segmentTrace weightedLength separator maxLen content)"

text \<open>
  Putting the content back together from the recorded segments: each segment, followed by
  the separator where the loop consumed one.
\<close>

definition consumedSeparator :: "cut \<Rightarrow> bool" where
  "consumedSeparator c = (case c of SeparatorCut \<Rightarrow> True | BoundaryCut consumed \<Rightarrow> consumed)"

fun reconstruct :: "'c list \<Rightarrow> ('c list \<times> cut) list \<Rightarrow> 'c list" where
  "reconstruct separator [] = []"
| "reconstruct separator ((segment, c) # rest) =
     segment @ (if consumedSeparator c then separator else []) @ reconstruct separator rest"

text \<open>
  Two predicates on the recorded segments: every segment of a boundary cut is within the
  weighted bound, and no segment contains the separator.
\<close>

definition bounded :: "('c list \<Rightarrow> nat) \<Rightarrow> nat \<Rightarrow> ('c list \<times> cut) list \<Rightarrow> bool" where
  "bounded wl m tr = (\<forall>(s, c) \<in> set tr. c \<noteq> SeparatorCut \<longrightarrow> wl s \<le> m)"

definition sepfree :: "'c list \<Rightarrow> ('c list \<times> cut) list \<Rightarrow> bool" where
  "sepfree sep tr = (\<forall>(s, c) \<in> set tr. indexOf s sep < 0)"

section \<open>Timestamps (index.js, lines 167--168, 200, 208, 262)\<close>

text \<open>
  \<open>new Date(item.pubDate[0]).getTime()\<close> is an integral number of milliseconds or \<open>NaN\<close>
  (for a date string that does not parse); \<open>parseInt(lastProcessedItem.Item.pubDate.N)\<close> is
  an integral number or \<open>NaN\<close>. \<open>lastProcessedPubDate\<close> and \<open>newProcessedPubDate\<close> hold such
  a number or \<open>null\<close>, which is \<open>None\<close>.
\<close>

datatype jsnum = NaN | Num int

text \<open>\<open>!x\<close> for a number or \<open>null\<close>: \<open>null\<close>, \<open>NaN\<close> and \<open>0\<close> are falsy.\<close>

fun falsy :: "jsnum option \<Rightarrow> bool" where
  "falsy None = True"
| "falsy (Some NaN) = True"
| "falsy (Some (Num n)) = (n = 0)"

text \<open>\<open>x < y\<close> on numbers (\<open>null\<close> converts to \<open>0\<close>): false when either side is \<open>NaN\<close>.\<close>

fun toNumber :: "jsnum option \<Rightarrow> jsnum" where
  "toNumber None = Num 0"
| "toNumber (Some v) = v"

fun lessThan :: "jsnum \<Rightarrow> jsnum \<Rightarrow> bool" where
  "lessThan (Num a) (Num b) = (a < b)"
| "lessThan _ _ = False"

text \<open>Line 208: \<open>!lastProcessedPubDate || lastProcessedPubDate < pubDate\<close>.\<close>

definition isNew :: "jsnum option \<Rightarrow> jsnum \<Rightarrow> bool" where
  "isNew lastProcessedPubDate pd =
     (falsy lastProcessedPubDate \<or> lessThan (toNumber lastProcessedPubDate) pd)"

text \<open>
  Line 262:
  \<open>if (!newProcessedPubDate || newProcessedPubDate < pubDate) newProcessedPubDate = pubDate\<close>;
  the result is the new value of \<open>newProcessedPubDate\<close>.
\<close>

definition advance :: "jsnum option \<Rightarrow> jsnum \<Rightarrow> jsnum option" where
  "advance newProcessedPubDate pd =
     (if falsy newProcessedPubDate \<or> lessThan (toNumber newProcessedPubDate) pd
      then Some pd else newProcessedPubDate)"

section \<open>Feed items\<close>

text \<open>
  An item of the parsed feed, as the callback reads it: \<open>pubDate\<close> is
  \<open>new Date(item.pubDate[0]).getTime()\<close>, \<open>category\<close> is \<open>item.category\<close> (absent when the
  item has no category element), \<open>link\<close> is \<open>item.link[0]\<close>, \<open>description\<close> is
  \<open>item.description[0]\<close> and \<open>media\<close> is \<open>item['media:content'][0].$.url\<close> when the item
  has a \<open>media:content\<close> element. The comment on line 210 says that link, publication date
  and description exist in every post; the record takes that for granted. A \<open>char\<close> of a
  \<open>string\<close> stands for one code unit.
\<close>

record item =
  pubDate :: jsnum
  category :: "string list option"
  link :: string
  description :: string
  media :: "string option"

text \<open>\<open>cat.toLowerCase()\<close> on the letters \<open>A\<close> to \<open>Z\<close>; other code units are kept.\<close>

definition toLowerChar :: "char \<Rightarrow> char" where
  "toLowerChar c =
     (let n = (of_char c :: nat) in if 65 \<le> n \<and> n \<le> 90 then char_of (n + 32) else c)"

definition toLowerCase :: "string \<Rightarrow> string" where
  "toLowerCase s = map toLowerChar s"

text \<open>
  Line 203:
  \<open>item.category && item.category.find(cat => cat.toLowerCase() === 'nocrosspost')\<close>.
  \<open>find\<close> gives the first matching tag, which is truthy when it is not the empty string.
\<close>

definition skipItem :: "item \<Rightarrow> bool" where
  "skipItem it =
     (case category it of
        None \<Rightarrow> False
      | Some cats \<Rightarrow>
          (case find (\<lambda>cat. toLowerCase cat = ''nocrosspost'') cats of
             None \<Rightarrow> False
           | Some cat \<Rightarrow> cat \<noteq> []))"

text \<open>\<open>items.slice(0, MAX_ITEMS)\<close>, where \<open>MAX_ITEMS\<close> is the result of \<open>parseInt\<close>.\<close>

fun slice0 :: "'a list \<Rightarrow> jsnum \<Rightarrow> 'a list" where
  "slice0 xs NaN = []"
| "slice0 xs (Num k) =
     (if k < 0 then take (nat (int (length xs) + k)) xs else take (nat k) xs)"

section \<open>Dispatch (index.js, lines 197--278)\<close>

datatype error =
  FetchError | CheckpointReadError | ParseError | TypeError | DispatchError
  | CheckpointWriteError

datatype eventName = IFTTT_EVENT_NAME | IFTTT_EVENT_NAME_WITH_IMAGE

text \<open>
  One call \<open>axios.post(webhookUrl, postData, ...)\<close>: the event name inside \<open>webhookUrl\<close> and
  the two fields of \<open>postData\<close> (\<open>value2\<close> is absent unless set on line 256). \<open>sender\<close> is
  not in the program: it is the position in \<open>latestItems\<close> of the item whose callback made
  the call.
\<close>

record post =
  sender :: nat
  iftttEventName :: eventName
  value1 :: string
  value2 :: "string option"

text \<open>
  The promise that the \<open>async\<close> callback returned for one item: settled, or suspended at
  \<open>await axios.post(...)\<close> on line 267 with the item's media, its \<open>pubDate\<close> and the
  segments that the \<open>for\<close> loop has still to visit.
\<close>

datatype postPromise =
  Resolved | RejectedWith error | AwaitingPost "string option" jsnum "string list"

record run =
  newProcessedPubDate :: "jsnum option"
  posts :: "post list"
  postPromises :: "postPromise list"

text \<open>
  Lines 249--258 and 266: the event name and \<open>postData\<close> for one segment. Only the first
  segment of an item with media gets \<open>value2\<close> and the event name with image.
\<close>

definition webhookPost :: "nat \<Rightarrow> bool \<Rightarrow> string option \<Rightarrow> string \<Rightarrow> post" where
  "webhookPost i firstSegment mediaContent segment =
     (let withImage = (firstSegment \<and> mediaContent \<noteq> None)
      in \<lparr>sender = i,
          iftttEventName =
            (if withImage then IFTTT_EVENT_NAME_WITH_IMAGE else IFTTT_EVENT_NAME),
          value1 = segment,
          value2 = (if withImage then mediaContent else None)\<rparr>)"

text \<open>
  The \<open>for\<close> loop of lines 248--272 from its next segment up to the next \<open>await\<close>: it
  builds \<open>postData\<close>, updates \<open>newProcessedPubDate\<close> and calls \<open>axios.post\<close>; with no
  segment left the callback returns.
\<close>

fun forOf :: "nat \<Rightarrow> bool \<Rightarrow> string option \<Rightarrow> jsnum \<Rightarrow> string list \<Rightarrow> run \<Rightarrow> postPromise \<times> run" where
  "forOf i firstSegment mediaContent pd [] st = (Resolved, st)"
| "forOf i firstSegment mediaContent pd (segment # rest) st =
     (AwaitingPost mediaContent pd rest,
      st\<lparr>newProcessedPubDate := advance (newProcessedPubDate st) pd,
         posts := posts st @ [webhookPost i firstSegment mediaContent segment]\<rparr>)"

text \<open>
  The response to the request of the suspended callback \<open>i\<close> arrives: a failure rejects its
  promise, a success sets \<open>firstSegment = false\<close> and goes on with the loop.
\<close>

definition deliver :: "nat \<Rightarrow> error option \<Rightarrow> run \<Rightarrow> run" where
  "deliver i response st =
     (case postPromises st ! i of
        AwaitingPost mediaContent pd rest \<Rightarrow>
          (case response of
             Some e \<Rightarrow> st\<lparr>postPromises := (postPromises st)[i := RejectedWith e]\<rparr>
           | None \<Rightarrow>
               (let (p, st') = forOf i False mediaContent pd rest st
                in st'\<lparr>postPromises := (postPromises st')[i := p]\<rparr>))
      | _ \<Rightarrow> st)"

fun isAwaiting :: "postPromise \<Rightarrow> bool" where
  "isAwaiting (AwaitingPost mediaContent pd rest) = True"
| "isAwaiting _ = False"

definition pending :: "run \<Rightarrow> nat list" where
  "pending st = filter (\<lambda>i. isAwaiting (postPromises st ! i)) [0..<length (postPromises st)]"

fun remainingWork :: "postPromise \<Rightarrow> nat" where
  "remainingWork (AwaitingPost mediaContent pd rest) = Suc (length rest)"
| "remainingWork _ = 0"

text \<open>
  The callbacks of different items run interleaved: whenever a response arrives, the
  callback that waits for it goes on to its next \<open>await\<close>. The order of arrival and the
  success of each request are the environment's choice, \<open>responses\<close>: the \<open>n\<close>-th response
  to arrive is for the suspended callback number \<open>k mod\<close> (number of suspended callbacks),
  and is a success (\<open>None\<close>) or a failure. Every request is taken to be answered.
  \<open>settle\<close> runs until no callback is suspended, which is when
  \<open>Promise.allSettled(postPromises)\<close> resolves (line 283).
\<close>

function settle :: "(nat \<Rightarrow> nat \<times> error option) \<Rightarrow> nat \<Rightarrow> run \<Rightarrow> run" where
  "settle responses n st =
     (if pending st = [] then st
      else (case responses n of
              (k, response) \<Rightarrow>
                settle responses (Suc n)
                  (deliver (pending st ! (k mod length (pending st))) response st)))"
  by pat_completeness auto
termination
proof (relation "measure (\<lambda>(responses, n, st). sum_list (map remainingWork (postPromises st)))")
  show "wf (measure (\<lambda>(responses, n, st). sum_list (map remainingWork (postPromises st))))"
    by simp
next
  fix responses :: "nat \<Rightarrow> nat \<times> error option" and n st k response
  assume ne: "pending st \<noteq> []" and x: "(k, response) = responses n"
  let ?i = "pending st ! (k mod length (pending st))"
  let ?ps = "postPromises st"
  from ne have "?i \<in> set (pending st)" by simp
  then have i: "?i < length ?ps" and aw: "isAwaiting (?ps ! ?i)"
    by (auto simp: pending_def)
  from aw obtain mediaContent pd rest where at: "?ps ! ?i = AwaitingPost mediaContent pd rest"
    by (cases "?ps ! ?i") auto
  have "\<exists>q. postPromises (deliver ?i response st) = ?ps[?i := q] \<and>
            remainingWork q < remainingWork (?ps ! ?i)"
  proof (cases response)
    case None
    then show ?thesis using at by (cases rest) (auto simp: deliver_def Let_def)
  next
    case (Some e)
    then show ?thesis using at by (auto simp: deliver_def)
  qed
  then obtain q where q: "postPromises (deliver ?i response st) = ?ps[?i := q]"
    "remainingWork q < remainingWork (?ps ! ?i)" by blast
  have upd: "map remainingWork (?ps[?i := q]) = (map remainingWork ?ps)[?i := remainingWork q]"
    by (rule map_update)
  have "remainingWork (?ps ! ?i) \<le> sum_list (map remainingWork ?ps)"
    using i by (intro member_le_sum_list) auto
  with q(2) i have "sum_list ((map remainingWork ?ps)[?i := remainingWork q])
      < sum_list (map remainingWork ?ps)"
    by (simp add: sum_list_update)
  with q(1) upd
  show "((responses, Suc n, deliver ?i response st), responses, n, st)
      \<in> measure (\<lambda>(responses, n, st). sum_list (map remainingWork (postPromises st)))"
    by simp
qed

declare settle.simps [simp del]

section \<open>The handler (index.js, lines 157--303)\<close>

text \<open>
  What the handler gets from its collaborators and its configuration:
  \<^item> \<open>rssFeedResponse\<close>: \<open>await axios.get(RSS_FEED_URL)\<close>, the document or the error thrown;
  \<^item> \<open>lastProcessedItem\<close>: the read of the checkpoint, lines 163--167: the error thrown, or
    \<open>null\<close> when the table has no item, or \<open>parseInt(lastProcessedItem.Item.pubDate.N)\<close>;
  \<^item> \<open>parseStringPromise\<close>: the parser and \<open>result.rss.channel[0].item\<close>, lines 182--185:
    the error thrown, or the items, \<open>None\<close> when the channel has no \<open>item\<close> element
    (\<open>items\<close> is then \<open>undefined\<close>);
  \<^item> \<open>MAX_ITEMS\<close>, and whether \<open>LOG_LEVEL\<close> is \<open>'debug'\<close>;
  \<^item> \<open>htmlToText\<close> of html-to-text and the weighted length of twitter-text;
  \<^item> \<open>responses\<close>: the order and outcome of the webhook responses (see \<open>settle\<close>);
  \<^item> \<open>putItem\<close>: the outcome of \<open>PutItemCommand\<close> for the number written.
\<close>

record env =
  rssFeedResponse :: "error + string"
  lastProcessedItem :: "error + jsnum option"
  parseStringPromise :: "string \<Rightarrow> error + item list option"
  MAX_ITEMS :: jsnum
  debug :: bool
  htmlToText :: "string \<Rightarrow> string"
  weightedLength :: "string \<Rightarrow> nat"
  responses :: "nat \<Rightarrow> nat \<times> error option"
  putItem :: "jsnum \<Rightarrow> error option"

definition separator :: string where
  "separator = ''====''"

text \<open>Lines 213--245: the segments of an item's content.\<close>

definition contentSegments :: "env \<Rightarrow> item \<Rightarrow> string list option" where
  "contentSegments e it =
     segmentContent (weightedLength e) separator 280 (htmlToText e (description it))"

text \<open>
  The callback of \<open>latestItems.map\<close> for one item, up to its first \<open>await\<close> or its return;
  the promise it returns is appended to \<open>postPromises\<close>. The result is \<open>None\<close> when the
  segmenter does not return.
\<close>

definition callback :: "env \<Rightarrow> jsnum option \<Rightarrow> item \<Rightarrow> run \<Rightarrow> run option" where
  "callback e lastProcessedPubDate it st =
     (if skipItem it then Some (st\<lparr>postPromises := postPromises st @ [Resolved]\<rparr>)
      else if isNew lastProcessedPubDate (pubDate it) then
        (case contentSegments e it of
           None \<Rightarrow> None
         | Some segments \<Rightarrow>
             (let (p, st') =
                    forOf (length (postPromises st)) True (media it) (pubDate it) segments st
              in Some (st'\<lparr>postPromises := postPromises st' @ [p]\<rparr>)))
      else Some (st\<lparr>postPromises := postPromises st @ [Resolved]\<rparr>))"

fun mapItems :: "env \<Rightarrow> jsnum option \<Rightarrow> item list \<Rightarrow> run \<Rightarrow> run option" where
  "mapItems e lastProcessedPubDate [] st = Some st"
| "mapItems e lastProcessedPubDate (it # latestItems) st =
     (case callback e lastProcessedPubDate it st of
        None \<Rightarrow> None
      | Some st' \<Rightarrow> mapItems e lastProcessedPubDate latestItems st')"

text \<open>
  How a call of the handler ends: its promise is fulfilled, or rejected with an error
  (the exception escapes the handler).
\<close>

datatype completion = Returns | Throws error

datatype logEntry = AnErrorOccurred error | ErrorInPromiseAll error

text \<open>
  What a call of the handler does: how it ends, the calls of \<open>axios.post\<close> in order, the
  numbers sent with \<open>PutItemCommand\<close>, and the errors logged (line 301 always logs, line 297
  only at log level debug; the other debug output is left out).
\<close>

record outcome =
  completion :: completion
  posted :: "post list"
  putItems :: "jsnum list"
  logged :: "logEntry list"

text \<open>
  Lines 283--298, after all promises have settled: \<open>newProcessedPubDate.toString()\<close> throws
  a TypeError on \<open>null\<close>; that error and a failed write are caught by \<open>.catch\<close>.
\<close>

definition commit :: "env \<Rightarrow> run \<Rightarrow> outcome" where
  "commit e st =
     (case newProcessedPubDate st of
        None \<Rightarrow>
          \<lparr>completion = Returns, posted = posts st, putItems = [],
           logged = (if debug e then [ErrorInPromiseAll TypeError] else [])\<rparr>
      | Some v \<Rightarrow>
          \<lparr>completion = Returns, posted = posts st, putItems = [v],
           logged = (case putItem e v of
                       None \<Rightarrow> []
                     | Some err \<Rightarrow> if debug e then [ErrorInPromiseAll err] else [])\<rparr>)"

text \<open>
  The handler. The feed is fetched and the checkpoint is read before the \<open>try\<close> block
  (lines 159--167); the rest is inside it. The result is \<open>None\<close> when the handler does not
  return.
\<close>

definition handler :: "env \<Rightarrow> outcome option" where
  "handler e =
     (case rssFeedResponse e of
        Inl err \<Rightarrow> Some \<lparr>completion = Throws err, posted = [], putItems = [], logged = []\<rparr>
      | Inr feed \<Rightarrow>
          (case lastProcessedItem e of
             Inl err \<Rightarrow>
               Some \<lparr>completion = Throws err, posted = [], putItems = [], logged = []\<rparr>
           | Inr lastProcessedPubDate \<Rightarrow>
               (case parseStringPromise e feed of
                  Inl err \<Rightarrow>
                    Some \<lparr>completion = Returns, posted = [], putItems = [],
                          logged = [AnErrorOccurred err]\<rparr>
                | Inr None \<Rightarrow>
                    Some \<lparr>completion = Returns, posted = [], putItems = [],
                          logged = [AnErrorOccurred TypeError]\<rparr>
                | Inr (Some items) \<Rightarrow>
                    (case mapItems e lastProcessedPubDate (rev (slice0 items (MAX_ITEMS e)))
                            \<lparr>newProcessedPubDate = lastProcessedPubDate, posts = [],
                             postPromises = []\<rparr> of
                       None \<Rightarrow> None
                     | Some st \<Rightarrow> Some (commit e (settle (responses e) 0 st))))))"

section \<open>Notions used to state the properties\<close>

text \<open>
  The callback gets past lines 203 and 208 for an item: it is not tagged and it is new.
\<close>

definition dispatched :: "jsnum option \<Rightarrow> item \<Rightarrow> bool" where
  "dispatched lastProcessedPubDate it =
     (\<not> skipItem it \<and> isNew lastProcessedPubDate (pubDate it))"

text \<open>
  The calls of \<open>axios.post\<close> that the callback of the item at position \<open>i\<close> makes when none
  of its requests fails: one for each segment, in order.
\<close>

definition itemPosts :: "env \<Rightarrow> jsnum option \<Rightarrow> nat \<Rightarrow> item \<Rightarrow> post list" where
  "itemPosts e lastProcessedPubDate i it =
     (if dispatched lastProcessedPubDate it then
        (case contentSegments e it of
           Some (segment # rest) \<Rightarrow>
             webhookPost i True (media it) segment # map (webhookPost i False (media it)) rest
         | _ \<Rightarrow> [])
      else [])"

text \<open>The calls made by the callback of the item at position \<open>i\<close>, among all calls.\<close>

definition postsOf :: "nat \<Rightarrow> post list \<Rightarrow> post list" where
  "postsOf i ps = filter (\<lambda>p. sender p = i) ps"

text \<open>
  The first call of every item of \<open>latestItems\<close> that makes one, in the order of
  \<open>latestItems\<close>, the first item being at position \<open>i\<close>.
\<close>

fun firstPosts :: "env \<Rightarrow> jsnum option \<Rightarrow> nat \<Rightarrow> item list \<Rightarrow> post list" where
  "firstPosts e lastProcessedPubDate i [] = []"
| "firstPosts e lastProcessedPubDate i (it # latestItems) =
     take 1 (itemPosts e lastProcessedPubDate i it)
       @ firstPosts e lastProcessedPubDate (Suc i) latestItems"

text \<open>
  Following the specification's words for the new checkpoint: the maximum of the last
  checkpoint, when there is one, and of the given publication times; no checkpoint when
  there is neither.
\<close>

definition specCheckpoint :: "int option \<Rightarrow> int list \<Rightarrow> int option" where
  "specCheckpoint lastCheckpoint publishedAt =
     (if lastCheckpoint = None \<and> publishedAt = [] then None
      else Some (Max (set_option lastCheckpoint \<union> set publishedAt)))"

fun theNum :: "jsnum \<Rightarrow> int" where
  "theNum (Num n) = n"
| "theNum NaN = 0"

text \<open>
  No suspended callback would change \<open>newProcessedPubDate\<close> with the update of line 262.
\<close>

definition stable :: "run \<Rightarrow> bool" where
  "stable st =
     (\<forall>j < length (postPromises st). \<forall>mediaContent pd rest.
        postPromises st ! j = AwaitingPost mediaContent pd rest \<longrightarrow>
        advance (newProcessedPubDate st) pd = newProcessedPubDate st)"

section \<open>Invariants of a run\<close>

text \<open>
  The calls made so far by the callback of the item at position \<open>k\<close>, compared with
  \<open>plan\<close>, the calls it makes when no request fails: a suspended callback has made at least
  one call and has the rest of the plan before it; a callback that returned has made all
  of them; a callback that was rejected has made some of them, in order.
\<close>

fun taskOk :: "post list \<Rightarrow> nat \<Rightarrow> post list \<Rightarrow> postPromise \<Rightarrow> bool" where
  "taskOk plan k ps (AwaitingPost mediaContent pd rest) =
     (ps \<noteq> [] \<and> ps @ map (webhookPost k False mediaContent) rest = plan)"
| "taskOk plan k ps Resolved = (ps = plan)"
| "taskOk plan k ps (RejectedWith err) = (ps \<noteq> [] \<and> prefix ps plan)"

text \<open>
  The invariant of a run: one promise for each item whose callback has started, and for
  each of them the calls made so far are as \<open>taskOk\<close> says.
\<close>

definition taskInv :: "env \<Rightarrow> jsnum option \<Rightarrow> item list \<Rightarrow> run \<Rightarrow> bool" where
  "taskInv e lastProcessedPubDate latestItems st =
     (length (postPromises st) = length latestItems \<and>
      (\<forall>p\<in>set (posts st). sender p < length latestItems) \<and>
      (\<forall>k<length latestItems.
         taskOk (itemPosts e lastProcessedPubDate k (latestItems ! k)) k
           (postsOf k (posts st)) (postPromises st ! k)))"

text \<open>
  Every suspended callback belongs to an item whose publication time is a number not
  above \<open>c\<close>.
\<close>

definition below :: "int option \<Rightarrow> run \<Rightarrow> bool" where
  "below c st =
     (\<forall>j < length (postPromises st). \<forall>mediaContent pd rest.
        postPromises st ! j = AwaitingPost mediaContent pd rest \<longrightarrow>
        (\<exists>p n. pd = Num p \<and> c = Some n \<and> p \<le> n))"

text \<open>No promise has been rejected.\<close>

definition noReject :: "run \<Rightarrow> bool" where
  "noReject st = (\<forall>q\<in>set (postPromises st). \<forall>err. q \<noteq> RejectedWith err)"


section \<open>Concrete inputs\<close>

text \<open>
  An environment in which every collaborator succeeds, the text of a description is the
  description itself, every code unit weighs one, and responses arrive in the order of
  the positions of the waiting callbacks.
\<close>

definition testEnv :: "jsnum option \<Rightarrow> item list \<Rightarrow> env" where
  "testEnv lastProcessedPubDate items =
     \<lparr>rssFeedResponse = Inr ''<rss/>'',
      lastProcessedItem = Inr lastProcessedPubDate,
      parseStringPromise = (\<lambda>feed. Inr (Some items)),
      MAX_ITEMS = Num 20,
      debug = False,
      htmlToText = (\<lambda>html. html),
      weightedLength = length,
      responses = (\<lambda>n. (0, None)),
      putItem = (\<lambda>v. None)\<rparr>"

definition testItem :: "int \<Rightarrow> string \<Rightarrow> item" where
  "testItem p content =
     \<lparr>pubDate = Num p, category = None, link = ''https://example.social/@user/1'',
      description = content, media = None\<rparr>"

section \<open>Properties of the string functions\<close>

lemma substring_0: "substring s 0 e = take (nat e) s"
  by (auto simp: substring_def Let_def min_def max_def)

lemma substringFrom_drop: "substringFrom s i = drop (nat i) s"
  by (auto simp: substringFrom_def substring_def Let_def min_def max_def)

lemma indexOf_bounds: "- 1 \<le> indexOf s sep \<and> indexOf s sep \<le> int (length s)"
  by (induction s) (auto simp: Let_def)

lemma indexOf_found:
  "0 \<le> indexOf s sep \<Longrightarrow> prefix sep (drop (nat (indexOf s sep)) s)"
proof (induction s)
  case Nil
  then show ?case by (auto split: if_splits)
next
  case (Cons c cs)
  show ?case
  proof (cases "prefix sep (c # cs)")
    case True
    then show ?thesis by simp
  next
    case False
    with Cons.prems have r: "0 \<le> indexOf cs sep" by (auto simp: Let_def split: if_splits)
    with False have "indexOf (c # cs) sep = indexOf cs sep + 1" by (simp add: Let_def)
    moreover have "nat (indexOf cs sep + 1) = Suc (nat (indexOf cs sep))" using r by simp
    ultimately show ?thesis using Cons.IH [OF r] by simp
  qed
qed

lemma indexOf_first:
  "j \<le> length s \<Longrightarrow> prefix sep (drop j s) \<Longrightarrow> 0 \<le> indexOf s sep \<and> indexOf s sep \<le> int j"
proof (induction s arbitrary: j)
  case Nil
  then show ?case by auto
next
  case (Cons c cs)
  show ?case
  proof (cases "prefix sep (c # cs)")
    case True
    then show ?thesis by simp
  next
    case False
    with Cons.prems obtain j' where j: "j = Suc j'" by (cases j) auto
    with Cons.prems have "j' \<le> length cs" "prefix sep (drop j' cs)" by auto
    from Cons.IH [OF this] False j show ?thesis by (auto simp: Let_def)
  qed
qed


lemma indexOf_leading:
  assumes "sep \<noteq> []"
  shows "indexOf (sep @ rest) sep = 0"
proof (cases "sep @ rest")
  case Nil
  with assms show ?thesis by simp
next
  case (Cons a list)
  have "prefix sep (sep @ rest)" by simp
  with Cons have "prefix sep (a # list)" by simp
  then have "indexOf (a # list) sep = 0" by simp
  with Cons show ?thesis by simp
qed

section \<open>Properties of the segmenter\<close>

lemma shortenLoop_partial:
  assumes "shortenLoop wl0 maxLen0 p0 = Some s0"
  shows "wl0 s0 \<le> maxLen0 \<and> prefix s0 p0"
proof (rule shortenLoop.raw_induct
    [where P = "\<lambda>wl maxLen p s. wl s \<le> maxLen \<and> prefix s p", OF _ assms])
  fix f :: "('a list \<Rightarrow> nat) \<Rightarrow> nat \<Rightarrow> 'a list \<Rightarrow> 'a list option"
  fix wl maxLen p s
  assume 1: "\<And>wl maxLen p s. f wl maxLen p = Some s \<Longrightarrow> wl s \<le> maxLen \<and> prefix s p"
    "(if maxLen < wl p then f wl maxLen (substring p 0 (int (length p) - 1)) else Some p) = Some s"
  show "wl s \<le> maxLen \<and> prefix s p"
  proof (cases "maxLen < wl p")
    case True
    with 1(2) have "f wl maxLen (butlast p) = Some s"
      by (simp add: substring_0 butlast_conv_take nat_diff_distrib')
    from 1(1) [OF this] have "wl s \<le> maxLen" "prefix s (butlast p)" by auto
    moreover have "prefix (butlast p) p" by (simp add: prefixeq_butlast)
    ultimately show ?thesis using prefix_order.trans by blast
  next
    case False
    with 1(2) show ?thesis by simp
  qed
qed

lemma split_at_separator:
  assumes "0 \<le> indexOf rem sep"
  shows "take (nat (indexOf rem sep)) rem @ sep @ drop (nat (indexOf rem sep) + length sep) rem = rem"
proof -
  let ?n = "nat (indexOf rem sep)"
  from indexOf_found [OF assms] obtain zs where zs: "drop ?n rem = sep @ zs"
    by (auto simp: prefix_def)
  have "drop (?n + length sep) rem = drop (length sep) (drop ?n rem)"
    by (simp add: add.commute)
  with zs have "drop (?n + length sep) rem = zs" by simp
  with zs have "sep @ drop (?n + length sep) rem = drop ?n rem" by simp
  then show ?thesis by (simp only: append_take_drop_id)
qed

lemma reconstruct_append:
  "reconstruct sep (xs @ ys) = reconstruct sep xs @ reconstruct sep ys"
  by (induction xs) auto

lemma occurrence_in_prefix:
  assumes "prefix seg rem" "0 \<le> indexOf seg sep" "sep \<noteq> []"
  shows "0 \<le> indexOf rem sep \<and> indexOf rem sep < int (length seg)"
proof -
  let ?j = "nat (indexOf seg sep)"
  from indexOf_bounds [of seg sep] assms(2) have j: "?j \<le> length seg" by simp
  from indexOf_found [OF assms(2)] have occ: "prefix sep (drop ?j seg)" .
  with assms(3) have "drop ?j seg \<noteq> []" by auto
  then have lt: "?j < length seg" by simp
  from assms(1) obtain zs where "rem = seg @ zs" by (auto simp: prefix_def)
  with j have "drop ?j rem = drop ?j seg @ zs" by simp
  with occ have "prefix sep (drop ?j rem)" by (auto simp: prefix_def)
  moreover from assms(1) j have "?j \<le> length rem" by (auto simp: prefix_def)
  ultimately have "0 \<le> indexOf rem sep \<and> indexOf rem sep \<le> int ?j"
    by (rule indexOf_first [rotated])
  with lt assms(2) show ?thesis by linarith
qed

lemma segmentLoop_partial:
  assumes "segmentLoop wl0 sep0 m0 acc0 rem0 = Some res0"
  shows "\<exists>tr. res0 = acc0 @ tr \<and> reconstruct sep0 tr = rem0 \<and> bounded wl0 m0 tr \<and> (sep0 \<noteq> [] \<longrightarrow> sepfree sep0 tr) \<and>
        (\<forall>acc'. segmentLoop wl0 sep0 m0 acc' rem0 = Some (acc' @ tr))"
proof (rule segmentLoop.raw_induct
    [where P = "\<lambda>wl sep m acc rem res. \<exists>tr. res = acc @ tr \<and> reconstruct sep tr = rem \<and>
        bounded wl m tr \<and> (sep \<noteq> [] \<longrightarrow> sepfree sep tr) \<and> (\<forall>acc'. segmentLoop wl sep m acc' rem = Some (acc' @ tr))",
      OF _ assms])
  fix f :: "('a list \<Rightarrow> nat) \<Rightarrow> 'a list \<Rightarrow> nat \<Rightarrow> ('a list \<times> cut) list \<Rightarrow> 'a list
     \<Rightarrow> ('a list \<times> cut) list option"
  fix wl sep m acc rem res
  assume 1: "\<And>wl sep m acc rem res. f wl sep m acc rem = Some res \<Longrightarrow>
      \<exists>tr. res = acc @ tr \<and> reconstruct sep tr = rem \<and>
        bounded wl m tr \<and> (sep \<noteq> [] \<longrightarrow> sepfree sep tr) \<and> (\<forall>acc'. segmentLoop wl sep m acc' rem = Some (acc' @ tr))"
    "(if 0 < length rem
      then let separatorIndex = indexOf rem sep
           in if 0 \<le> separatorIndex \<and> separatorIndex < int m
              then f wl sep m (acc @ [(substring rem 0 separatorIndex, SeparatorCut)])
                    (substringFrom rem (separatorIndex + int (length sep)))
              else Option.bind (shortenLoop wl m (substring rem 0 (int m)))
                    (\<lambda>segment.
                        let separatorIndex = indexOf rem sep
                        in if separatorIndex = int (length segment)
                           then f wl sep m (acc @ [(segment, BoundaryCut True)])
                                 (substringFrom rem (separatorIndex + int (length sep)))
                           else f wl sep m (acc @ [(segment, BoundaryCut False)])
                                 (substringFrom rem (int (length segment))))
      else Some acc) = Some res"
  let ?i = "indexOf rem sep"
  show "\<exists>tr. res = acc @ tr \<and> reconstruct sep tr = rem \<and>
        bounded wl m tr \<and> (sep \<noteq> [] \<longrightarrow> sepfree sep tr) \<and> (\<forall>acc'. segmentLoop wl sep m acc' rem = Some (acc' @ tr))"
  proof (cases "rem = []")
    case True
    with 1(2) have "res = acc" by simp
    moreover have "\<forall>acc'. segmentLoop wl sep m acc' rem = Some acc'"
      using True by (subst segmentLoop.simps) simp
    ultimately show ?thesis using True by (auto simp: bounded_def sepfree_def)
  next
    case False
    show ?thesis
    proof (cases "0 \<le> ?i \<and> ?i < int m")
      case True
      let ?x = "(take (nat ?i) rem, SeparatorCut)"
      let ?rest = "drop (nat ?i + length sep) rem"
      have arg: "nat (?i + int (length sep)) = nat ?i + length sep" using True by (simp add: nat_add_distrib)
      from 1(2) False True have "f wl sep m (acc @ [?x]) ?rest = Some res"
        by (simp add: Let_def substring_0 substringFrom_drop arg)
      from 1(1) [OF this] obtain tr where tr: "res = (acc @ [?x]) @ tr"
        "reconstruct sep tr = ?rest" "bounded wl m tr" "sep \<noteq> [] \<longrightarrow> sepfree sep tr"
        "\<forall>acc'. segmentLoop wl sep m acc' ?rest = Some (acc' @ tr)" by blast
      have "\<forall>acc'. segmentLoop wl sep m acc' rem = Some (acc' @ ?x # tr)"
      proof
        fix acc'
        from tr(5) have "segmentLoop wl sep m (acc' @ [?x]) ?rest = Some ((acc' @ [?x]) @ tr)"
          by blast
        with False True show "segmentLoop wl sep m acc' rem = Some (acc' @ ?x # tr)"
          by (subst segmentLoop.simps) (simp add: Let_def substring_0 substringFrom_drop arg)
      qed
      moreover have "reconstruct sep (?x # tr) = rem"
        using tr(2) split_at_separator [of rem sep] True by (simp add: consumedSeparator_def)
      moreover have "bounded wl m (?x # tr)" using tr(3) by (simp add: bounded_def)
      moreover have "sep \<noteq> [] \<longrightarrow> sepfree sep (?x # tr)"
      proof
        assume ne: "sep \<noteq> []"
        have "indexOf (take (nat ?i) rem) sep < 0"
        proof (rule ccontr)
          assume "\<not> indexOf (take (nat ?i) rem) sep < 0"
          then have "0 \<le> indexOf (take (nat ?i) rem) sep" by simp
          from occurrence_in_prefix [OF take_is_prefix this ne]
          show False by (auto simp: min_def split: if_splits)
        qed
        with tr(4) ne show "sepfree sep (?x # tr)" by (simp add: sepfree_def)
      qed
      ultimately show ?thesis using tr(1) by auto
    next
      case nosep: False
      from 1(2) False nosep obtain seg where
        seg: "shortenLoop wl m (take m rem) = Some seg"
        and body: "(if ?i = int (length seg)
           then f wl sep m (acc @ [(seg, BoundaryCut True)]) (drop (nat ?i + length sep) rem)
           else f wl sep m (acc @ [(seg, BoundaryCut False)]) (drop (length seg) rem)) = Some res"
        by (auto simp: Let_def substring_0 substringFrom_drop nat_add_distrib
            split: bind_splits if_splits)
      from shortenLoop_partial [OF seg] have wl: "wl seg \<le> m" and "prefix seg (take m rem)"
        by auto
      then have pre: "prefix seg rem" using take_is_prefix prefix_order.trans by blast
      have lseg: "length seg \<le> m" using \<open>prefix seg (take m rem)\<close> prefix_length_le by fastforce
      have free: "sep \<noteq> [] \<longrightarrow> indexOf seg sep < 0"
      proof
        assume ne: "sep \<noteq> []"
        show "indexOf seg sep < 0"
        proof (rule ccontr)
          assume "\<not> indexOf seg sep < 0"
          then have "0 \<le> indexOf seg sep" by simp
          from occurrence_in_prefix [OF pre this ne] lseg nosep
          show False by simp
        qed
      qed
      show ?thesis
      proof (cases "?i = int (length seg)")
        case True
        let ?x = "(seg, BoundaryCut True)"
        let ?rest = "drop (nat ?i + length sep) rem"
        from body True have "f wl sep m (acc @ [?x]) ?rest = Some res" by simp
        from 1(1) [OF this] obtain tr where tr: "res = (acc @ [?x]) @ tr"
          "reconstruct sep tr = ?rest" "bounded wl m tr" "sep \<noteq> [] \<longrightarrow> sepfree sep tr"
          "\<forall>acc'. segmentLoop wl sep m acc' ?rest = Some (acc' @ tr)" by blast
        have "\<forall>acc'. segmentLoop wl sep m acc' rem = Some (acc' @ ?x # tr)"
        proof
          fix acc'
          from tr(5) have "segmentLoop wl sep m (acc' @ [?x]) ?rest = Some ((acc' @ [?x]) @ tr)"
            by blast
          with False nosep seg True show "segmentLoop wl sep m acc' rem = Some (acc' @ ?x # tr)"
            by (subst segmentLoop.simps)
              (auto simp add: Let_def substring_0 substringFrom_drop nat_add_distrib)
        qed
        moreover have "take (nat ?i) rem = seg" using True pre by (auto simp: prefix_def)
        then have "reconstruct sep (?x # tr) = rem"
          using tr(2) split_at_separator [of rem sep] True by (simp add: consumedSeparator_def)
        moreover have "bounded wl m (?x # tr)" using tr(3) wl by (simp add: bounded_def)
        moreover have "sep \<noteq> [] \<longrightarrow> sepfree sep (?x # tr)"
          using tr(4) free by (simp add: sepfree_def)
        ultimately show ?thesis using tr(1) by auto
      next
        case noc: False
        let ?x = "(seg, BoundaryCut False)"
        let ?rest = "drop (length seg) rem"
        from body noc have "f wl sep m (acc @ [?x]) ?rest = Some res" by simp
        from 1(1) [OF this] obtain tr where tr: "res = (acc @ [?x]) @ tr"
          "reconstruct sep tr = ?rest" "bounded wl m tr" "sep \<noteq> [] \<longrightarrow> sepfree sep tr"
          "\<forall>acc'. segmentLoop wl sep m acc' ?rest = Some (acc' @ tr)" by blast
        have "\<forall>acc'. segmentLoop wl sep m acc' rem = Some (acc' @ ?x # tr)"
        proof
          fix acc'
          from tr(5) have "segmentLoop wl sep m (acc' @ [?x]) ?rest = Some ((acc' @ [?x]) @ tr)"
            by blast
          with False nosep seg noc show "segmentLoop wl sep m acc' rem = Some (acc' @ ?x # tr)"
            by (subst segmentLoop.simps)
              (auto simp add: Let_def substring_0 substringFrom_drop nat_add_distrib)
        qed
        moreover have "seg @ drop (length seg) rem = rem" using pre by (auto simp: prefix_def)
        then have "reconstruct sep (?x # tr) = rem"
          using tr(2) by (simp add: consumedSeparator_def)
        moreover have "bounded wl m (?x # tr)" using tr(3) wl by (simp add: bounded_def)
        moreover have "sep \<noteq> [] \<longrightarrow> sepfree sep (?x # tr)"
          using tr(4) free by (simp add: sepfree_def)
        ultimately show ?thesis using tr(1) by auto
      qed
    qed
  qed
qed

lemma segmentLoop_shift:
  "segmentLoop wl sep m acc rem = map_option ((@) acc) (segmentLoop wl sep m [] rem)"
proof (cases "segmentLoop wl sep m acc rem")
  case None
  show ?thesis
  proof (cases "segmentLoop wl sep m [] rem")
    case inner: None
    with None show ?thesis by simp
  next
    case (Some t)
    from segmentLoop_partial [OF this] None show ?thesis by auto
  qed
next
  case (Some res)
  from segmentLoop_partial [OF this] obtain tr where "res = acc @ tr"
    "\<forall>acc'. segmentLoop wl sep m acc' rem = Some (acc' @ tr)" by blast
  then have "segmentLoop wl sep m [] rem = Some tr" "segmentLoop wl sep m acc rem = Some (acc @ tr)"
    by (metis append_Nil, blast)
  then show ?thesis by simp
qed

lemma segmentLoop_shift1:
  "segmentLoop wl sep m [x] rem = map_option ((#) x) (segmentLoop wl sep m [] rem)"
  using segmentLoop_shift [of wl sep m "[x]" rem] by (simp add: map_option.compositionality comp_def option.map_comp cong: option.map_cong)

lemma segmentTrace_unfold:
  "segmentTrace wl sep m rem =
     (if rem = [] then Some []
      else if 0 \<le> indexOf rem sep \<and> indexOf rem sep < int m
        then map_option ((#) (take (nat (indexOf rem sep)) rem, SeparatorCut))
               (segmentTrace wl sep m (drop (nat (indexOf rem sep) + length sep) rem))
        else Option.bind (shortenLoop wl m (take m rem))
               (\<lambda>seg. if indexOf rem sep = int (length seg)
                  then map_option ((#) (seg, BoundaryCut True))
                         (segmentTrace wl sep m (drop (length seg + length sep) rem))
                  else map_option ((#) (seg, BoundaryCut False))
                         (segmentTrace wl sep m (drop (length seg) rem))))"
  unfolding segmentTrace_def
  by (subst segmentLoop.simps)
    (auto simp add: Let_def substring_0 substringFrom_drop nat_add_distrib segmentLoop_shift1
      intro!: arg_cong2 [where f = Option.bind] ext)

lemma shortenLoop_total:
  "\<exists>k\<le>length p. wl (take k p) \<le> maxLen \<Longrightarrow>
   \<exists>s. shortenLoop wl maxLen p = Some s \<and> wl s \<le> maxLen \<and> prefix s p \<and>
       (\<forall>k\<le>length p. wl (take k p) \<le> maxLen \<longrightarrow> k \<le> length s)"
proof (induction "length p" arbitrary: p)
  case 0
  then show ?case by (subst shortenLoop.simps) auto
next
  case (Suc n)
  show ?case
  proof (cases "wl p \<le> maxLen")
    case True
    then show ?thesis by (subst shortenLoop.simps) auto
  next
    case False
    from Suc.prems obtain k where k: "k \<le> length p" "wl (take k p) \<le> maxLen" by blast
    have shorter: "j \<le> length (butlast p) \<and> take j (butlast p) = take j p"
      if "j \<le> length p" "wl (take j p) \<le> maxLen" for j
    proof -
      from that False have "j < length p" by (cases "j = length p") auto
      then show ?thesis by (auto simp: butlast_conv_take min_def split: if_splits)
    qed
    from shorter [OF k] k(2)
    have ex: "\<exists>k\<le>length (butlast p). wl (take k (butlast p)) \<le> maxLen" by auto
    have len: "n = length (butlast p)" using Suc.hyps by simp
    from Suc.hyps(1) [OF len ex] obtain s where
      s: "shortenLoop wl maxLen (butlast p) = Some s" "wl s \<le> maxLen" "prefix s (butlast p)"
      "\<forall>k\<le>length (butlast p). wl (take k (butlast p)) \<le> maxLen \<longrightarrow> k \<le> length s"
      by blast
    have bl: "substring p 0 (int (length p) - 1) = butlast p"
      by (simp add: substring_0 butlast_conv_take nat_diff_distrib')
    have "prefix (butlast p) p" by (simp add: prefixeq_butlast)
    with s(3) have "prefix s p" by (rule prefix_order.trans)
    moreover have "\<forall>k\<le>length p. wl (take k p) \<le> maxLen \<longrightarrow> k \<le> length s"
      using shorter s(4) by metis
    ultimately show ?thesis using s(1,2) False bl by (subst shortenLoop.simps) auto
  qed
qed

lemma segmentTrace_total:
  assumes sep: "sep \<noteq> []" and m: "0 < m" and single: "\<forall>c. wl [c] \<le> m"
  shows "\<exists>tr. segmentTrace wl sep m rem = Some tr"
proof (induction "length rem" arbitrary: rem rule: less_induct)
  case less
  show ?case
  proof (cases "rem = []")
    case True
    then show ?thesis by (subst segmentTrace_unfold) simp
  next
    case False
    then obtain c cs where rem: "rem = c # cs" by (cases rem) auto
    show ?thesis
    proof (cases "0 \<le> indexOf rem sep \<and> indexOf rem sep < int m")
      case True
      from sep False have "length (drop (nat (indexOf rem sep) + length sep) rem) < length rem"
        by simp
      from less [OF this] True False show ?thesis
        by (subst segmentTrace_unfold) auto
    next
      case nosep: False
      from m rem have "take 1 (take m rem) = [c]" by (cases m) auto
      with single have "\<exists>k\<le>length (take m rem). wl (take k (take m rem)) \<le> m"
        using m rem by (intro exI [of _ 1]) auto
      from shortenLoop_total [OF this] obtain seg where
        seg: "shortenLoop wl m (take m rem) = Some seg"
        and mx: "\<forall>k\<le>length (take m rem). wl (take k (take m rem)) \<le> m \<longrightarrow> k \<le> length seg"
        by blast
      have "1 \<le> length (take m rem)" using m rem by (cases m) auto
      with mx \<open>take 1 (take m rem) = [c]\<close> single have pos: "1 \<le> length seg" by metis
      with rem have l1: "length (drop (length seg) rem) < length rem" by simp
      from pos rem have l2: "length (drop (length seg + length sep) rem) < length rem" by simp
      from less [OF l1] less [OF l2] seg nosep False show ?thesis
        by (subst segmentTrace_unfold) auto
    qed
  qed
qed


lemma segmentTrace_sound:
  assumes "segmentTrace wl sep m content = Some tr"
  shows "reconstruct sep tr = content" "bounded wl m tr" "sep \<noteq> [] \<Longrightarrow> sepfree sep tr"
  using segmentLoop_partial [of wl sep m "[]" content tr] assms
  by (auto simp: segmentTrace_def)

lemma segmentContent_unfold:
  "segmentContent wl sep m rem =
     (if rem = [] then Some []
      else if 0 \<le> indexOf rem sep \<and> indexOf rem sep < int m
        then map_option ((#) (take (nat (indexOf rem sep)) rem))
               (segmentContent wl sep m (drop (nat (indexOf rem sep) + length sep) rem))
        else Option.bind (shortenLoop wl m (take m rem))
               (\<lambda>seg. if indexOf rem sep = int (length seg)
                  then map_option ((#) seg)
                         (segmentContent wl sep m (drop (length seg + length sep) rem))
                  else map_option ((#) seg)
                         (segmentContent wl sep m (drop (length seg) rem))))"
  unfolding segmentContent_def
  by (subst segmentTrace_unfold)
    (auto simp: option.map_comp comp_def split: bind_splits)

lemma segmentContent_total:
  "sep \<noteq> [] \<Longrightarrow> 0 < m \<Longrightarrow> \<forall>c. wl [c] \<le> m \<Longrightarrow> \<exists>segs. segmentContent wl sep m rem = Some segs"
  using segmentTrace_total [of sep m wl rem] by (auto simp: segmentContent_def)

section \<open>Claims about the segmenter\<close>

text \<open>
  C9. The candidate-shortening loop terminates and ends on a candidate within the bound:
  whenever some prefix of the starting candidate (possibly the empty one) has a weighted
  length of at most \<open>maxLen\<close>, removing trailing code units one at a time reaches a
  prefix \<open>s\<close> of the candidate with \<open>wl s \<le> maxLen\<close>. The hypothesis is about the weighting
  function of twitter-text, a parameter here: it holds for every candidate as soon as the
  empty string weighs at most \<open>maxLen\<close> (take \<open>k = 0\<close>), and for every non-empty
  candidate as soon as a single code unit does (take \<open>k = 1\<close>).
\<close>

theorem shortenLoop_terminates:
  "\<exists>k\<le>length p. wl (take k p) \<le> maxLen \<Longrightarrow>
   \<exists>s. shortenLoop wl maxLen p = Some s \<and> wl s \<le> maxLen \<and> prefix s p"
  using shortenLoop_total [of p wl maxLen] by blast

text \<open>The hypothesis of C9 holds at a concrete candidate, which the loop shortens.\<close>

theorem shortenLoop_terminates_witness:
  "(\<exists>k\<le>length ''abcd''. 2 * length (take k ''abcd'') \<le> 4) \<and>
   (\<exists>s. shortenLoop (\<lambda>s. 2 * length s) 4 ''abcd'' = Some s \<and> 2 * length s \<le> 4 \<and> prefix s ''abcd'') \<and>
   shortenLoop (\<lambda>s. 2 * length s) 4 ''abcd'' = Some ''ab''"
proof -
  have h: "\<exists>k\<le>length ''abcd''. 2 * length (take k ''abcd'') \<le> 4"
    by (rule exI [of _ 0]) simp
  have "shortenLoop (\<lambda>s. 2 * length s) 4 ''abcd'' = Some ''ab''"
    by (simp add: shortenLoop.simps substring_0)
  with h shortenLoop_terminates [of "''abcd''" "\<lambda>s. 2 * length s" 4, OF h] show ?thesis
    by blast
qed

text \<open>
  C4. For every content, separator and bound: when the segmenter returns, the segments
  it emitted, each followed by the separator where the loop consumed one, concatenate to
  the content exactly; and the emitted segments are the first components of the record.
  The segmenter does return when the separator is not empty, the bound is positive and
  every single code unit weighs at most the bound (as with \<open>'===='\<close>, 280 and twitter-text).
\<close>

theorem segmenter_roundtrip:
  "(segmentTrace wl sep maxLen content = Some tr \<longrightarrow>
      reconstruct sep tr = content \<and> segmentContent wl sep maxLen content = Some (map fst tr)) \<and>
   (sep \<noteq> [] \<and> 0 < maxLen \<and> (\<forall>c. wl [c] \<le> maxLen) \<longrightarrow>
      (\<exists>tr'. segmentTrace wl sep maxLen content = Some tr'))"
  using segmentTrace_sound(1) [of wl sep maxLen content tr]
    segmentTrace_total [of sep maxLen wl content]
  by (auto simp: segmentContent_def)

text \<open>C4 at the content \<open>AAA====BBB\<close>.\<close>

theorem segmenter_roundtrip_witness:
  "segmentTrace length ''===='' 280 ''AAA====BBB'' =
     Some [(''AAA'', SeparatorCut), (''BBB'', BoundaryCut False)] \<and>
   ''===='' \<noteq> [] \<and> 0 < (280 :: nat) \<and> (\<forall>c :: char. length [c] \<le> 280) \<and>
   reconstruct ''===='' [(''AAA'', SeparatorCut), (''BBB'', BoundaryCut False)] = ''AAA====BBB'' \<and>
   segmentContent length ''===='' 280 ''AAA====BBB'' = Some [''AAA'', ''BBB'']"
proof -
  have h: "segmentTrace length ''===='' 280 ''AAA====BBB'' =
     Some [(''AAA'', SeparatorCut), (''BBB'', BoundaryCut False)]"
    by (simp add: segmentTrace_unfold shortenLoop.simps)
  from segmenter_roundtrip [of length "''====''" 280 "''AAA====BBB''"
      "[(''AAA'', SeparatorCut), (''BBB'', BoundaryCut False)]"] h
  show ?thesis by simp
qed

text \<open>
  C5. Every emitted segment that was not produced by the cut at a separator has a weighted
  length of at most the bound. The segmenter does return, with all such segments within
  the bound and the content put back together from its record, when the separator is not
  empty, the bound is positive and every single code unit weighs at most the bound (as
  with \<open>'===='\<close>, 280 and twitter-text). A segment cut at a separator may exceed the
  bound: with a weighting of two per code unit and the bound 4, the content
  \<open>abc====defgh\<close> gives \<open>abc\<close> (weight 6) at the separator and then \<open>de\<close>, \<open>fg\<close> and \<open>h\<close>,
  each shortened from a candidate of four code units until it weighs at most 4.
\<close>

theorem boundary_segments_bounded:
  "(segmentTrace wl sep maxLen content = Some tr \<and> (seg, BoundaryCut consumed) \<in> set tr \<longrightarrow>
      wl seg \<le> maxLen) \<and>
   (sep \<noteq> [] \<and> 0 < maxLen \<and> (\<forall>c. wl [c] \<le> maxLen) \<longrightarrow>
      (\<exists>tr'. segmentTrace wl sep maxLen content = Some tr' \<and>
         reconstruct sep tr' = content \<and>
         (\<forall>(s, c)\<in>set tr'. c \<noteq> SeparatorCut \<longrightarrow> wl s \<le> maxLen))) \<and>
   segmentTrace (\<lambda>s. 2 * length s) ''===='' 4 ''abc====defgh'' =
     Some [(''abc'', SeparatorCut), (''de'', BoundaryCut False), (''fg'', BoundaryCut False),
           (''h'', BoundaryCut False)]"
proof (intro conjI impI)
  assume "segmentTrace wl sep maxLen content = Some tr \<and> (seg, BoundaryCut consumed) \<in> set tr"
  then show "wl seg \<le> maxLen"
    using segmentTrace_sound(2) [of wl sep maxLen content tr] by (auto simp: bounded_def)
next
  assume a: "sep \<noteq> [] \<and> 0 < maxLen \<and> (\<forall>c. wl [c] \<le> maxLen)"
  with segmentTrace_total [of sep maxLen wl content] obtain tr' where
    t: "segmentTrace wl sep maxLen content = Some tr'" by blast
  from segmentTrace_sound(1,2) [OF t] t
  show "\<exists>tr'. segmentTrace wl sep maxLen content = Some tr' \<and>
         reconstruct sep tr' = content \<and>
         (\<forall>(s, c)\<in>set tr'. c \<noteq> SeparatorCut \<longrightarrow> wl s \<le> maxLen)"
    by (auto simp: bounded_def)
next
  show "segmentTrace (\<lambda>s. 2 * length s) ''===='' 4 ''abc====defgh'' =
     Some [(''abc'', SeparatorCut), (''de'', BoundaryCut False), (''fg'', BoundaryCut False),
           (''h'', BoundaryCut False)]"
    by (simp add: segmentTrace_unfold shortenLoop.simps substring_0)
qed

text \<open>
  C5 at the content \<open>abcde=f\<close> with separator \<open>=\<close>, a weighting of two per code unit
  and the bound 4: the candidate \<open>abcd\<close> is shortened to \<open>ab\<close>, and \<open>cde\<close> (weight 6) is
  cut at the separator.
\<close>

theorem boundary_segments_bounded_witness:
  "segmentTrace (\<lambda>s. 2 * length s) ''='' 4 ''abcde=f'' =
     Some [(''ab'', BoundaryCut False), (''cde'', SeparatorCut), (''f'', BoundaryCut False)] \<and>
   (''ab'', BoundaryCut False) \<in>
     set [(''ab'', BoundaryCut False), (''cde'', SeparatorCut), (''f'', BoundaryCut False)] \<and>
   2 * length ''ab'' \<le> (4 :: nat) \<and>
   ''='' \<noteq> [] \<and> 0 < (4 :: nat) \<and> (\<forall>c :: char. 2 * length [c] \<le> 4) \<and>
   shortenLoop (\<lambda>s. 2 * length s) 4 ''abcd'' = Some ''ab'' \<and>
   (\<exists>tr'. segmentTrace (\<lambda>s. 2 * length s) ''='' 4 ''abcde=f'' = Some tr' \<and>
      reconstruct ''='' tr' = ''abcde=f'')"
proof -
  let ?tr = "[(''ab'', BoundaryCut False), (''cde'', SeparatorCut), (''f'', BoundaryCut False)]"
  have h: "segmentTrace (\<lambda>s. 2 * length s) ''='' 4 ''abcde=f'' = Some ?tr"
    by (simp add: segmentTrace_unfold shortenLoop.simps substring_0)
  have s: "shortenLoop (\<lambda>s. 2 * length s) 4 ''abcd'' = Some ''ab''"
    by (simp add: shortenLoop.simps substring_0)
  have p: "''='' \<noteq> [] \<and> 0 < (4 :: nat) \<and> (\<forall>c :: char. 2 * length [c] \<le> 4)" by simp
  from boundary_segments_bounded [of "\<lambda>s. 2 * length s" "''=''" 4 "''abcde=f''" ?tr
      "''ab''" False] h p
  have "2 * length ''ab'' \<le> (4 :: nat)"
    and "\<exists>tr'. segmentTrace (\<lambda>s. 2 * length s) ''='' 4 ''abcde=f'' = Some tr' \<and>
      reconstruct ''='' tr' = ''abcde=f''"
    by auto
  with h s p show ?thesis by simp
qed

text \<open>
  C7. When the separator starts within the first \<open>maxLen\<close> code units of the remaining
  content, the text before it is emitted as one segment, whatever its weighted length
  (the equation holds for every weighting function), and segmentation goes on after the
  separator; no emitted segment contains the separator. In particular \<open>AAA====BBB\<close>
  with separator \<open>====\<close> and bound 280 gives exactly the segments \<open>AAA\<close> and \<open>BBB\<close>
  (for a weighting function that gives \<open>BBB\<close> at most 280).
\<close>

theorem separator_cut:
  "(remaining \<noteq> [] \<and> 0 \<le> indexOf remaining sep \<and> indexOf remaining sep < int maxLen \<longrightarrow>
      segmentContent wl sep maxLen remaining =
        map_option ((#) (take (nat (indexOf remaining sep)) remaining))
          (segmentContent wl sep maxLen
             (drop (nat (indexOf remaining sep) + length sep) remaining))) \<and>
   (sep \<noteq> [] \<and> segmentContent wl sep maxLen content = Some segs \<longrightarrow>
      (\<forall>seg\<in>set segs. indexOf seg sep < 0)) \<and>
   (wl' ''BBB'' \<le> 280 \<longrightarrow>
      segmentContent wl' ''===='' 280 ''AAA====BBB'' = Some [''AAA'', ''BBB''])"
proof (intro conjI impI)
  assume "remaining \<noteq> [] \<and> 0 \<le> indexOf remaining sep \<and> indexOf remaining sep < int maxLen"
  then show "segmentContent wl sep maxLen remaining =
        map_option ((#) (take (nat (indexOf remaining sep)) remaining))
          (segmentContent wl sep maxLen
             (drop (nat (indexOf remaining sep) + length sep) remaining))"
    by (subst segmentContent_unfold) simp
next
  assume a: "sep \<noteq> [] \<and> segmentContent wl sep maxLen content = Some segs"
  then obtain tr where tr: "segmentTrace wl sep maxLen content = Some tr" "segs = map fst tr"
    by (auto simp: segmentContent_def)
  from segmentTrace_sound(3) [OF tr(1)] a have "sepfree sep tr" by simp
  with tr(2) show "\<forall>seg\<in>set segs. indexOf seg sep < 0"
    by (auto simp: sepfree_def)
next
  assume "wl' ''BBB'' \<le> 280"
  then show "segmentContent wl' ''===='' 280 ''AAA====BBB'' = Some [''AAA'', ''BBB'']"
    by (simp add: segmentContent_unfold shortenLoop.simps)
qed

text \<open>C7 at the content \<open>AAA====BBB\<close> with the length as weighting function.\<close>

theorem separator_cut_witness:
  "(''AAA====BBB'' \<noteq> [] \<and> 0 \<le> indexOf ''AAA====BBB'' ''===='' \<and>
      indexOf ''AAA====BBB'' ''===='' < int 280) \<and>
   indexOf ''AAA====BBB'' ''===='' = 3 \<and>
   segmentContent length ''===='' 280 ''AAA====BBB'' =
     map_option ((#) ''AAA'') (segmentContent length ''===='' 280 ''BBB'') \<and>
   (''===='' \<noteq> [] \<and> segmentContent length ''===='' 280 ''AAA====BBB'' = Some [''AAA'', ''BBB'']) \<and>
   indexOf ''AAA'' ''===='' < 0 \<and> indexOf ''BBB'' ''===='' < 0 \<and>
   length ''BBB'' \<le> 280"
proof -
  have i: "indexOf ''AAA====BBB'' ''===='' = 3" by simp
  have s: "segmentContent length ''===='' 280 ''AAA====BBB'' = Some [''AAA'', ''BBB'']"
    by (simp add: segmentContent_unfold shortenLoop.simps)
  from separator_cut [of "''AAA====BBB''" "''====''" 280 length "''AAA====BBB''"
      "[''AAA'', ''BBB'']" length] i s
  show ?thesis by simp
qed

section \<open>Properties of the dispatch\<close>

lemma sender_webhookPost [simp]: "sender (webhookPost i f m s) = i"
  by (simp add: webhookPost_def Let_def)

lemma deliver_cases:
  assumes "postPromises st ! i = AwaitingPost m pd rest"
  shows "deliver i (Some err) st = st\<lparr>postPromises := (postPromises st)[i := RejectedWith err]\<rparr>"
    and "rest = [] \<Longrightarrow> deliver i None st = st\<lparr>postPromises := (postPromises st)[i := Resolved]\<rparr>"
    and "rest = s # rest' \<Longrightarrow> deliver i None st =
       st\<lparr>newProcessedPubDate := advance (newProcessedPubDate st) pd,
          posts := posts st @ [webhookPost i False m s],
          postPromises := (postPromises st)[i := AwaitingPost m pd rest']\<rparr>"
  using assms by (simp_all add: deliver_def)

lemma deliver_inv:
  assumes inv: "taskInv e lastP items st" and i: "i < length items"
    and aw: "isAwaiting (postPromises st ! i)"
  shows "taskInv e lastP items (deliver i r st)"
proof -
  from aw obtain m pd rest where at: "postPromises st ! i = AwaitingPost m pd rest"
    by (cases "postPromises st ! i") auto
  from inv have len: "length (postPromises st) = length items"
    and snd: "\<forall>p\<in>set (posts st). sender p < length items"
    and ok: "\<And>k. k < length items \<Longrightarrow>
         taskOk (itemPosts e lastP k (items ! k)) k (postsOf k (posts st)) (postPromises st ! k)"
    by (auto simp: taskInv_def)
  from ok [OF i] at have pi: "postsOf i (posts st) \<noteq> []"
    "postsOf i (posts st) @ map (webhookPost i False m) rest = itemPosts e lastP i (items ! i)"
    by auto
  show ?thesis
  proof (cases r)
    case (Some err)
    have "prefix (postsOf i (posts st)) (itemPosts e lastP i (items ! i))"
      using pi(2) by (metis prefixI)
    with pi(1) show ?thesis using deliver_cases(1) [OF at] Some len snd ok i
      by (auto simp: taskInv_def nth_list_update)
  next
    case None
    show ?thesis
    proof (cases rest)
      case Nil
      with pi(2) show ?thesis using deliver_cases(2) [OF at Nil] None len snd ok i
        by (auto simp: taskInv_def nth_list_update)
    next
      case (Cons s rest')
      have other: "postsOf k (posts st @ [webhookPost i False m s]) = postsOf k (posts st)"
        if "k \<noteq> i" for k using that by (auto simp: postsOf_def)
      have self: "postsOf i (posts st @ [webhookPost i False m s])
          = postsOf i (posts st) @ [webhookPost i False m s]"
        by (simp add: postsOf_def)
      show ?thesis unfolding taskInv_def
      proof (intro conjI allI impI)
        show "length (postPromises (deliver i r st)) = length items"
          using deliver_cases(3) [OF at Cons] None len by simp
        show "\<forall>p\<in>set (posts (deliver i r st)). sender p < length items"
          using deliver_cases(3) [OF at Cons] None snd i by auto
      next
        fix k assume k: "k < length items"
        show "taskOk (itemPosts e lastP k (items ! k)) k (postsOf k (posts (deliver i r st)))
            (postPromises (deliver i r st) ! k)"
        proof (cases "k = i")
          case True
          with pi Cons self show ?thesis
            using deliver_cases(3) [OF at Cons] None len i by simp
        next
          case False
          with ok [OF k] other [OF False] show ?thesis
            using deliver_cases(3) [OF at Cons] None len k by simp
        qed
      qed
    qed
  qed
qed

lemma pending_nth:
  assumes "pending st \<noteq> []"
  shows "pending st ! (k mod length (pending st)) < length (postPromises st) \<and>
         isAwaiting (postPromises st ! (pending st ! (k mod length (pending st))))"
proof -
  from assms have "pending st ! (k mod length (pending st)) \<in> set (pending st)" by simp
  then show ?thesis by (auto simp: pending_def)
qed

lemma settle_inv:
  "taskInv e lastP items st \<Longrightarrow> taskInv e lastP items (settle r n st)"
proof (induction r n st rule: settle.induct)
  case (1 r n st)
  show ?case
  proof (cases "pending st = []")
    case True
    with 1(2) show ?thesis by (subst settle.simps) simp
  next
    case False
    obtain k resp where kr: "r n = (k, resp)" by (cases "r n") auto
    let ?i = "pending st ! (k mod length (pending st))"
    from pending_nth [OF False, of k] 1(2) have "?i < length items" "isAwaiting (postPromises st ! ?i)"
      by (auto simp: taskInv_def)
    from deliver_inv [OF 1(2) this] have "taskInv e lastP items (deliver ?i resp st)" .
    from 1(1) [OF False kr [symmetric] this] False kr show ?thesis
      by (subst settle.simps) simp
  qed
qed

lemma settle_pending: "pending (settle r n st) = []"
proof (induction r n st rule: settle.induct)
  case (1 r n st)
  show ?case
  proof (cases "pending st = []")
    case True
    then show ?thesis by (subst settle.simps) simp
  next
    case False
    obtain k resp where kr: "r n = (k, resp)" by (cases "r n") auto
    from 1 [OF False kr [symmetric]] False kr show ?thesis
      by (subst settle.simps) simp
  qed
qed

lemma deliver_posts:
  "prefix (posts st) (posts (deliver i r st))"
  by (auto simp: deliver_def Let_def split: postPromise.splits option.splits list.splits prod.splits
      elim!: forOf.elims)

lemma settle_posts: "prefix (posts st) (posts (settle r n st))"
proof (induction r n st rule: settle.induct)
  case (1 r n st)
  show ?case
  proof (cases "pending st = []")
    case True
    then show ?thesis by (subst settle.simps) simp
  next
    case False
    obtain k resp where kr: "r n = (k, resp)" by (cases "r n") auto
    let ?i = "pending st ! (k mod length (pending st))"
    have "prefix (posts st) (posts (deliver ?i resp st))" by (rule deliver_posts)
    also have "prefix \<dots> (posts (settle r (Suc n) (deliver ?i resp st)))"
      using 1 [OF False kr [symmetric]] .
    finally show ?thesis using False kr by (subst settle.simps) simp
  qed
qed

lemma deliver_stable:
  assumes "stable st" "i < length (postPromises st)"
  shows "newProcessedPubDate (deliver i r st) = newProcessedPubDate st \<and> stable (deliver i r st)"
proof (cases "postPromises st ! i")
  case (AwaitingPost m pd rest)
  from assms AwaitingPost have adv: "advance (newProcessedPubDate st) pd = newProcessedPubDate st"
    by (auto simp: stable_def)
  show ?thesis
  proof (cases r)
    case (Some err)
    with assms show ?thesis using deliver_cases(1) [OF AwaitingPost]
      by (auto simp: stable_def nth_list_update split: if_splits)
  next
    case None
    show ?thesis
    proof (cases rest)
      case Nil
      with None assms show ?thesis using deliver_cases(2) [OF AwaitingPost]
        by (auto simp: stable_def nth_list_update split: if_splits)
    next
      case (Cons s rest')
      with None assms adv show ?thesis using deliver_cases(3) [OF AwaitingPost Cons]
        by (auto simp: stable_def nth_list_update split: if_splits)
    qed
  qed
qed (use assms in \<open>auto simp: deliver_def\<close>)

lemma settle_stable:
  "stable st \<Longrightarrow> newProcessedPubDate (settle r n st) = newProcessedPubDate st"
proof (induction r n st rule: settle.induct)
  case (1 r n st)
  show ?case
  proof (cases "pending st = []")
    case True
    then show ?thesis by (subst settle.simps) simp
  next
    case False
    obtain k resp where kr: "r n = (k, resp)" by (cases "r n") auto
    let ?i = "pending st ! (k mod length (pending st))"
    from pending_nth [OF False, of k] have "?i < length (postPromises st)" by simp
    from deliver_stable [OF 1(2) this, of resp]
    have a: "newProcessedPubDate (deliver ?i resp st) = newProcessedPubDate st"
      and b: "stable (deliver ?i resp st)" by auto
    from 1(1) [OF False kr [symmetric] b] a False kr show ?thesis
      by (subst settle.simps) simp
  qed
qed

lemma callback_cases:
  assumes "callback e lastP it st = Some st'"
  shows "(itemPosts e lastP (length (postPromises st)) it = [] \<and>
          st' = st\<lparr>postPromises := postPromises st @ [Resolved]\<rparr>) \<or>
         (dispatched lastP it \<and> (\<exists>s rest. contentSegments e it = Some (s # rest) \<and>
            st' = st\<lparr>newProcessedPubDate := advance (newProcessedPubDate st) (pubDate it),
                     posts := posts st @ [webhookPost (length (postPromises st)) True (media it) s],
                     postPromises := postPromises st @ [AwaitingPost (media it) (pubDate it) rest]\<rparr>))"
proof (cases "dispatched lastP it")
  case False
  with assms show ?thesis
    by (auto simp: callback_def dispatched_def itemPosts_def split: if_splits)
next
  case True
  with assms obtain segs where segs: "contentSegments e it = Some segs"
    by (auto simp: callback_def dispatched_def split: option.splits)
  show ?thesis
  proof (cases segs)
    case Nil
    with assms True segs show ?thesis
      by (auto simp: callback_def dispatched_def itemPosts_def)
  next
    case (Cons s rest)
    with assms True segs show ?thesis
      by (auto simp: callback_def dispatched_def)
  qed
qed

lemma callback_total:
  assumes "\<forall>c. weightedLength e [c] \<le> 280"
  shows "\<exists>st'. callback e lastP it st = Some st'"
proof -
  from segmentContent_total [of separator 280 "weightedLength e" "htmlToText e (description it)"] assms
  obtain segs where "contentSegments e it = Some segs"
    by (auto simp: contentSegments_def separator_def)
  then show ?thesis
    by (auto simp: callback_def split: prod.splits)
qed

lemma mapItems_total:
  assumes "\<forall>c. weightedLength e [c] \<le> 280"
  shows "\<exists>st'. mapItems e lastP items st = Some st'"
proof (induction items arbitrary: st)
  case Nil
  then show ?case by simp
next
  case (Cons it items)
  from callback_total [OF assms, of lastP it st] obtain st1 where "callback e lastP it st = Some st1"
    by blast
  with Cons [of st1] show ?case by simp
qed

lemma callback_inv:
  assumes inv: "taskInv e lastP items st" and cb: "callback e lastP it st = Some st'"
  shows "taskInv e lastP (items @ [it]) st'"
proof -
  let ?n = "length items"
  from inv have len: "length (postPromises st) = ?n"
    and snd: "\<forall>p\<in>set (posts st). sender p < ?n"
    and ok: "\<And>k. k < ?n \<Longrightarrow>
         taskOk (itemPosts e lastP k (items ! k)) k (postsOf k (posts st)) (postPromises st ! k)"
    by (auto simp: taskInv_def)
  from snd have none: "postsOf ?n (posts st) = []"
    by (auto simp: postsOf_def filter_empty_conv)
  from callback_cases [OF cb] show ?thesis
  proof
    assume a: "itemPosts e lastP (length (postPromises st)) it = [] \<and>
          st' = st\<lparr>postPromises := postPromises st @ [Resolved]\<rparr>"
    show ?thesis unfolding taskInv_def
    proof (intro conjI allI impI)
      show "length (postPromises st') = length (items @ [it])" using a len by simp
      show "\<forall>p\<in>set (posts st'). sender p < length (items @ [it])" using a snd by auto
    next
      fix k assume "k < length (items @ [it])"
      then consider "k < ?n" | "k = ?n" by force
      then show "taskOk (itemPosts e lastP k ((items @ [it]) ! k)) k (postsOf k (posts st'))
          (postPromises st' ! k)"
      proof cases
        case 1
        with ok [OF 1] a len show ?thesis by (simp add: nth_append)
      next
        case 2
        with a len none show ?thesis by (simp add: nth_append)
      qed
    qed
  next
    assume "dispatched lastP it \<and> (\<exists>s rest. contentSegments e it = Some (s # rest) \<and>
            st' = st\<lparr>newProcessedPubDate := advance (newProcessedPubDate st) (pubDate it),
                     posts := posts st @ [webhookPost (length (postPromises st)) True (media it) s],
                     postPromises := postPromises st @ [AwaitingPost (media it) (pubDate it) rest]\<rparr>)"
    then obtain s rest where d: "dispatched lastP it" and segs: "contentSegments e it = Some (s # rest)"
      and st': "st' = st\<lparr>newProcessedPubDate := advance (newProcessedPubDate st) (pubDate it),
                     posts := posts st @ [webhookPost ?n True (media it) s],
                     postPromises := postPromises st @ [AwaitingPost (media it) (pubDate it) rest]\<rparr>"
      using len by auto
    show ?thesis unfolding taskInv_def
    proof (intro conjI allI impI)
      show "length (postPromises st') = length (items @ [it])" using st' len by simp
      show "\<forall>p\<in>set (posts st'). sender p < length (items @ [it])" using st' snd by auto
    next
      fix k assume "k < length (items @ [it])"
      then consider "k < ?n" | "k = ?n" by force
      then show "taskOk (itemPosts e lastP k ((items @ [it]) ! k)) k (postsOf k (posts st'))
          (postPromises st' ! k)"
      proof cases
        case 1
        then have "postsOf k (posts st') = postsOf k (posts st)"
          using st' by (auto simp: postsOf_def)
        with ok [OF 1] 1 st' len show ?thesis by (simp add: nth_append)
      next
        case 2
        have "postsOf ?n (posts st') = [webhookPost ?n True (media it) s]"
          using st' none by (simp add: postsOf_def)
        with 2 st' len d segs show ?thesis by (simp add: nth_append itemPosts_def)
      qed
    qed
  qed
qed

lemma mapItems_inv:
  "taskInv e lastP done st \<Longrightarrow> mapItems e lastP todo st = Some st' \<Longrightarrow>
   taskInv e lastP (done @ todo) st'"
proof (induction todo arbitrary: "done" st)
  case Nil
  then show ?case by simp
next
  case (Cons it todo)
  from Cons.prems(2) obtain st1 where cb: "callback e lastP it st = Some st1"
    and rest: "mapItems e lastP todo st1 = Some st'"
    by (auto split: option.splits)
  from callback_inv [OF Cons.prems(1) cb] have "taskInv e lastP (done @ [it]) st1" .
  from Cons.IH [OF this rest] show ?case by simp
qed

lemma mapItems_posts:
  "mapItems e lastP items st = Some st' \<Longrightarrow>
   posts st' = posts st @ firstPosts e lastP (length (postPromises st)) items \<and>
   length (postPromises st') = length (postPromises st) + length items"
proof (induction items arbitrary: st)
  case Nil
  then show ?case by simp
next
  case (Cons it items)
  from Cons.prems obtain st1 where cb: "callback e lastP it st = Some st1"
    and rest: "mapItems e lastP items st1 = Some st'"
    by (auto split: option.splits)
  from callback_cases [OF cb]
  have "posts st1 = posts st @ take 1 (itemPosts e lastP (length (postPromises st)) it) \<and>
        length (postPromises st1) = Suc (length (postPromises st))"
    by (auto simp: itemPosts_def)
  with Cons.IH [OF rest] show ?case by simp
qed

lemma advance_positive:
  assumes "\<forall>n. c = Some n \<longrightarrow> 0 < n"
  shows "advance (map_option Num c) (Num p) = Some (Num (case c of None \<Rightarrow> p | Some n \<Rightarrow> max n p))"
  using assms by (cases c) (auto simp: advance_def)

lemma below_stable:
  assumes "below c st" "newProcessedPubDate st = map_option Num c" "\<forall>n. c = Some n \<longrightarrow> 0 < n"
  shows "stable st"
  unfolding stable_def
proof (intro allI impI)
  fix j m pd rest
  assume "j < length (postPromises st)" "postPromises st ! j = AwaitingPost m pd rest"
  with assms(1) obtain p n where "pd = Num p" "c = Some n" "p \<le> n"
    unfolding below_def by blast
  with assms(2,3) show "advance (newProcessedPubDate st) pd = newProcessedPubDate st"
    by (auto simp: advance_def)
qed

lemma specCheckpoint_Cons:
  "specCheckpoint c (p # ps) = specCheckpoint (Some (case c of None \<Rightarrow> p | Some n \<Rightarrow> max n p)) ps"
proof (cases c)
  case None
  then show ?thesis by (simp add: specCheckpoint_def)
next
  case (Some n)
  then show ?thesis
    by (cases "set ps = {}")
      (auto simp: specCheckpoint_def max.assoc max.commute max.left_commute)
qed

lemma mapItems_candidate:
  assumes "mapItems e lastP items st = Some st'"
    and "\<forall>it\<in>set items. \<exists>p>0. pubDate it = Num p"
    and "newProcessedPubDate st = map_option Num c" and "\<forall>n. c = Some n \<longrightarrow> 0 < n"
    and "below c st"
  shows "\<exists>c'. newProcessedPubDate st' = map_option Num c' \<and> (\<forall>n. c' = Some n \<longrightarrow> 0 < n) \<and>
      below c' st' \<and>
      c' = specCheckpoint c (map (theNum \<circ> pubDate)
             (filter (\<lambda>it. dispatched lastP it \<and> contentSegments e it \<noteq> Some []) items))"
  using assms
proof (induction items arbitrary: st c)
  case Nil
  then show ?case by (cases c) (auto simp: specCheckpoint_def)
next
  case (Cons it items)
  from Cons.prems(1) obtain st1 where cb: "callback e lastP it st = Some st1"
    and rest: "mapItems e lastP items st1 = Some st'"
    by (auto split: option.splits)
  from Cons.prems(2) obtain p where p: "0 < p" "pubDate it = Num p" by auto
  from Cons.prems(2) have pos: "\<forall>it\<in>set items. \<exists>p>0. pubDate it = Num p" by simp
  from callback_cases [OF cb] show ?case
  proof
    assume a: "itemPosts e lastP (length (postPromises st)) it = [] \<and>
          st1 = st\<lparr>postPromises := postPromises st @ [Resolved]\<rparr>"
    have skip: "\<not> (dispatched lastP it \<and> contentSegments e it \<noteq> Some [])"
    proof
      assume d: "dispatched lastP it \<and> contentSegments e it \<noteq> Some []"
      from cb d obtain segs where "contentSegments e it = Some segs"
        by (auto simp: callback_def dispatched_def split: option.splits)
      with d a show False by (cases segs) (auto simp: itemPosts_def)
    qed
    have b: "below c st1" using Cons.prems(5) a
      by (auto simp: below_def nth_append split: if_splits)
    from a Cons.prems(3) have "newProcessedPubDate st1 = map_option Num c" by simp
    from Cons.IH [OF rest pos this Cons.prems(4) b] skip show ?thesis by auto
  next
    assume "dispatched lastP it \<and> (\<exists>s rest. contentSegments e it = Some (s # rest) \<and>
            st1 = st\<lparr>newProcessedPubDate := advance (newProcessedPubDate st) (pubDate it),
                     posts := posts st @ [webhookPost (length (postPromises st)) True (media it) s],
                     postPromises := postPromises st @ [AwaitingPost (media it) (pubDate it) rest]\<rparr>)"
    then obtain s rest' where d: "dispatched lastP it"
      and segs: "contentSegments e it = Some (s # rest')"
      and st1: "st1 = st\<lparr>newProcessedPubDate := advance (newProcessedPubDate st) (pubDate it),
                     posts := posts st @ [webhookPost (length (postPromises st)) True (media it) s],
                     postPromises := postPromises st @ [AwaitingPost (media it) (pubDate it) rest']\<rparr>"
      by auto
    let ?c1 = "Some (case c of None \<Rightarrow> p | Some n \<Rightarrow> max n p)"
    from st1 Cons.prems(3) p advance_positive [OF Cons.prems(4), of p]
    have cand: "newProcessedPubDate st1 = map_option Num ?c1" by simp
    have pos1: "\<forall>n. ?c1 = Some n \<longrightarrow> 0 < n" using p(1) Cons.prems(4) by (cases c) auto
    have b: "below ?c1 st1" unfolding below_def
    proof (intro allI impI)
      fix j m pd rest
      assume j: "j < length (postPromises st1)" and at: "postPromises st1 ! j = AwaitingPost m pd rest"
      show "\<exists>q n. pd = Num q \<and> ?c1 = Some n \<and> q \<le> n"
      proof (cases "j < length (postPromises st)")
        case True
        with at st1 have "postPromises st ! j = AwaitingPost m pd rest" by (simp add: nth_append)
        with Cons.prems(5) True obtain q n where "pd = Num q" "c = Some n" "q \<le> n"
          unfolding below_def by blast
        then show ?thesis by auto
      next
        case False
        with j st1 have "j = length (postPromises st)" by simp
        with at st1 p have "pd = Num p" by (simp add: nth_append)
        then show ?thesis by (cases c) auto
      qed
    qed
    from Cons.IH [OF rest pos cand pos1 b] d segs p show ?thesis
      by (simp add: specCheckpoint_Cons)
  qed
qed

lemma callback_noReject:
  "noReject st \<Longrightarrow> callback e lastP it st = Some st' \<Longrightarrow> noReject st'"
  using callback_cases [of e lastP it st st'] by (auto simp: noReject_def)

lemma mapItems_noReject:
  "noReject st \<Longrightarrow> mapItems e lastP items st = Some st' \<Longrightarrow> noReject st'"
proof (induction items arbitrary: st)
  case Nil
  then show ?case by simp
next
  case (Cons it items)
  from Cons.prems(2) obtain st1 where cb: "callback e lastP it st = Some st1"
    and rest: "mapItems e lastP items st1 = Some st'"
    by (auto split: option.splits)
  from Cons.IH [OF callback_noReject [OF Cons.prems(1) cb] rest] show ?case .
qed

lemma deliver_noReject:
  assumes "noReject st"
  shows "noReject (deliver i None st)"
proof (cases "postPromises st ! i")
  case (AwaitingPost m pd rest)
  show ?thesis
  proof (cases rest)
    case Nil
    with assms deliver_cases(2) [OF AwaitingPost] show ?thesis
      by (auto simp: noReject_def dest!: set_update_subset_insert [THEN subsetD])
  next
    case (Cons s rest')
    with assms deliver_cases(3) [OF AwaitingPost] show ?thesis
      by (auto simp: noReject_def dest!: set_update_subset_insert [THEN subsetD])
  qed
qed (use assms in \<open>auto simp: deliver_def\<close>)

lemma settle_noReject:
  "\<forall>n. snd (r n) = None \<Longrightarrow> noReject st \<Longrightarrow> noReject (settle r n st)"
proof (induction r n st rule: settle.induct)
  case (1 r n st)
  show ?case
  proof (cases "pending st = []")
    case True
    with 1(3) show ?thesis by (subst settle.simps) simp
  next
    case False
    obtain k resp where kr: "r n = (k, resp)" by (cases "r n") auto
    with 1(2) have resp: "resp = None" by (metis snd_conv)
    let ?i = "pending st ! (k mod length (pending st))"
    from deliver_noReject [OF 1(3), of ?i] resp have "noReject (deliver ?i resp st)" by simp
    from 1(1) [OF False kr [symmetric] 1(2) this] False kr show ?thesis
      by (subst settle.simps) simp
  qed
qed

lemma initial_inv:
  "taskInv e lastP [] \<lparr>newProcessedPubDate = lastP, posts = [], postPromises = []\<rparr>"
  by (simp add: taskInv_def)

lemma set_slice0: "set (slice0 xs k) \<subseteq> set xs"
  by (cases k) (auto dest: in_set_takeD)

lemma posted_commit [simp]: "posted (commit e st) = posts st"
  by (simp add: commit_def split: option.splits)

lemma completion_commit [simp]: "completion (commit e st) = Returns"
  by (simp add: commit_def split: option.splits)

lemma putItems_commit:
  "putItems (commit e st) = (case newProcessedPubDate st of None \<Rightarrow> [] | Some v \<Rightarrow> [v])"
  by (simp add: commit_def split: option.splits)

text \<open>The handler once the feed is fetched, the checkpoint read and the feed parsed.\<close>

lemma handler_dispatches:
  assumes "rssFeedResponse e = Inr feed" "lastProcessedItem e = Inr lastP"
    "parseStringPromise e feed = Inr (Some items)"
  shows "handler e =
     map_option (\<lambda>st. commit e (settle (responses e) 0 st))
       (mapItems e lastP (rev (slice0 items (MAX_ITEMS e)))
          \<lparr>newProcessedPubDate = lastP, posts = [], postPromises = []\<rparr>)"
  using assms by (simp add: handler_def split: option.splits)

lemma handler_total:
  assumes "rssFeedResponse e = Inr feed" "lastProcessedItem e = Inr lastP"
    "parseStringPromise e feed = Inr (Some items)" "\<forall>c. weightedLength e [c] \<le> 280"
  obtains st where
    "mapItems e lastP (rev (slice0 items (MAX_ITEMS e)))
       \<lparr>newProcessedPubDate = lastP, posts = [], postPromises = []\<rparr> = Some st"
    "handler e = Some (commit e (settle (responses e) 0 st))"
proof -
  from mapItems_total [OF assms(4)] obtain st where
    st: "mapItems e lastP (rev (slice0 items (MAX_ITEMS e)))
       \<lparr>newProcessedPubDate = lastP, posts = [], postPromises = []\<rparr> = Some st" by blast
  with handler_dispatches [OF assms(1-3)] that show thesis by simp
qed

text \<open>What every run does for the item at position k.\<close>

lemma final_posts:
  assumes map: "mapItems e lastP latest
       \<lparr>newProcessedPubDate = lastP, posts = [], postPromises = []\<rparr> = Some st"
    and k: "k < length latest"
  defines "fin \<equiv> settle (responses e) 0 st"
  shows "prefix (postsOf k (posts fin)) (itemPosts e lastP k (latest ! k))"
    and "itemPosts e lastP k (latest ! k) \<noteq> [] \<Longrightarrow> postsOf k (posts fin) \<noteq> []"
    and "\<forall>n. snd (responses e n) = None \<Longrightarrow>
         postsOf k (posts fin) = itemPosts e lastP k (latest ! k)"
proof -
  from mapItems_inv [OF initial_inv map] have "taskInv e lastP latest st" by simp
  from settle_inv [OF this] have inv: "taskInv e lastP latest fin" by (simp add: fin_def)
  with k have ok: "taskOk (itemPosts e lastP k (latest ! k)) k (postsOf k (posts fin))
      (postPromises fin ! k)" and len: "length (postPromises fin) = length latest"
    by (auto simp: taskInv_def)
  have "pending fin = []" by (simp add: fin_def settle_pending)
  with k len have na: "\<not> isAwaiting (postPromises fin ! k)"
    by (auto simp: pending_def filter_empty_conv)
  from ok na show "prefix (postsOf k (posts fin)) (itemPosts e lastP k (latest ! k))"
    by (cases "postPromises fin ! k") auto
  from ok na show "itemPosts e lastP k (latest ! k) \<noteq> [] \<Longrightarrow> postsOf k (posts fin) \<noteq> []"
    by (cases "postPromises fin ! k") auto
  show "postsOf k (posts fin) = itemPosts e lastP k (latest ! k)"
    if "\<forall>n. snd (responses e n) = None"
  proof -
    have "noReject \<lparr>newProcessedPubDate = lastP, posts = [], postPromises = []\<rparr>"
      by (simp add: noReject_def)
    from mapItems_noReject [OF this map] have "noReject st" .
    from settle_noReject [OF that this] have "noReject fin" by (simp add: fin_def)
    with k len have "\<forall>err. postPromises fin ! k \<noteq> RejectedWith err"
      by (auto simp: noReject_def)
    with ok na show ?thesis by (cases "postPromises fin ! k") auto
  qed
qed

lemma itemPosts_empty:
  assumes "contentSegments e it = Some segments"
  shows "itemPosts e lastP k it = [] \<longleftrightarrow> \<not> dispatched lastP it \<or> segments = []"
  using assms by (cases segments) (auto simp: itemPosts_def)

lemma itemPosts_values:
  assumes "contentSegments e it = Some segments" "dispatched lastP it"
  shows "map value1 (itemPosts e lastP k it) = segments"
  using assms by (cases segments) (auto simp: itemPosts_def webhookPost_def Let_def comp_def)

lemma contentSegments_total:
  assumes "\<forall>c. weightedLength e [c] \<le> 280"
  shows "\<exists>segments. contentSegments e it = Some segments"
  using segmentContent_total [of separator 280 "weightedLength e" "htmlToText e (description it)"] assms
  by (auto simp: contentSegments_def separator_def)

section \<open>Claims about the handler\<close>

text \<open>
  C1 fails as stated. With the checkpoint 100 and one item published at 150 that carries
  the tag \<open>nocrosspost\<close>, nothing is dispatched and the number written as the new
  checkpoint is 100, not 150: the callback returns on line 204, before the update of
  line 262.
\<close>

theorem tagged_item_checkpoint_counterexample:
  "skipItem ((testItem 150 ''hello'')\<lparr>category := Some [''nocrosspost'']\<rparr>) \<and>
   map_option posted (handler (testEnv (Some (Num 100))
      [(testItem 150 ''hello'')\<lparr>category := Some [''nocrosspost'']\<rparr>])) = Some [] \<and>
   map_option putItems (handler (testEnv (Some (Num 100))
      [(testItem 150 ''hello'')\<lparr>category := Some [''nocrosspost'']\<rparr>])) = Some [Num 100] \<and>
   map_option putItems (handler (testEnv (Some (Num 100))
      [(testItem 150 ''hello'')\<lparr>category := Some [''nocrosspost'']\<rparr>])) \<noteq> Some [Num 150]"
  by code_simp

text \<open>
  C1, amended. For a last checkpoint that is absent or a positive number and publication
  times that are positive numbers, whatever the order and the outcome of the webhook
  responses, the handler returns and the number it writes as the new checkpoint is the
  maximum of
  the last checkpoint and of the publication times of the items that were dispatched
  with at least one segment; nothing is written when there is no last checkpoint and no
  such item. Items skipped for the exclusion tag, items that are not new and items
  without any segment do not count.
\<close>

theorem checkpoint_candidate:
  assumes "rssFeedResponse e = Inr feed"
    and "lastProcessedItem e = Inr (map_option Num lastCheckpoint)"
    and "parseStringPromise e feed = Inr (Some items)"
    and "\<forall>n. lastCheckpoint = Some n \<longrightarrow> 0 < n"
    and "\<forall>it\<in>set items. \<exists>p>0. pubDate it = Num p"
    and "\<forall>c. weightedLength e [c] \<le> 280"
  shows "\<exists>out. handler e = Some out \<and>
     putItems out =
       (case specCheckpoint lastCheckpoint
               (map (theNum \<circ> pubDate)
                  (filter (\<lambda>it. dispatched (map_option Num lastCheckpoint) it \<and>
                                 contentSegments e it \<noteq> Some [])
                     (rev (slice0 items (MAX_ITEMS e))))) of
          None \<Rightarrow> []
        | Some v \<Rightarrow> [Num v])"
proof -
  let ?lastP = "map_option Num lastCheckpoint"
  let ?latest = "rev (slice0 items (MAX_ITEMS e))"
  let ?st0 = "\<lparr>newProcessedPubDate = ?lastP, posts = [], postPromises = []\<rparr>"
  from handler_total [OF assms(1,2,3,6)] obtain st where
    st: "mapItems e ?lastP ?latest ?st0 = Some st"
    and h: "handler e = Some (commit e (settle (responses e) 0 st))" by blast
  from assms(5) set_slice0 [of items "MAX_ITEMS e"]
  have pos: "\<forall>it\<in>set ?latest. \<exists>p>0. pubDate it = Num p" by auto
  have "below lastCheckpoint ?st0" by (simp add: below_def)
  from mapItems_candidate [OF st pos _ assms(4) this]
  obtain c' where c': "newProcessedPubDate st = map_option Num c'" "\<forall>n. c' = Some n \<longrightarrow> 0 < n"
    "below c' st"
    "c' = specCheckpoint lastCheckpoint (map (theNum \<circ> pubDate)
             (filter (\<lambda>it. dispatched ?lastP it \<and> contentSegments e it \<noteq> Some []) ?latest))"
    by auto
  from below_stable [OF c'(3,1,2)] have "stable st" .
  from settle_stable [OF this] c'(1)
  have "newProcessedPubDate (settle (responses e) 0 st) = map_option Num c'" by simp
  then have "putItems (commit e (settle (responses e) 0 st)) =
      (case c' of None \<Rightarrow> [] | Some v \<Rightarrow> [Num v])"
    by (simp add: putItems_commit split: option.splits)
  with h c'(4) show ?thesis by simp
qed

text \<open>
  C1, amended, at the checkpoint 100 and a feed with a new item at 200, a tagged item at
  150, a new item at 120 and an old item at 90: 200 is written.
\<close>

theorem checkpoint_candidate_witness:
  "rssFeedResponse (testEnv (Some (Num 100))
      [testItem 200 ''b'', (testItem 150 ''hello'')\<lparr>category := Some [''nocrosspost'']\<rparr>,
       testItem 120 ''a'', testItem 90 ''old'']) = Inr ''<rss/>'' \<and>
   map_option putItems (handler (testEnv (Some (Num 100))
      [testItem 200 ''b'', (testItem 150 ''hello'')\<lparr>category := Some [''nocrosspost'']\<rparr>,
       testItem 120 ''a'', testItem 90 ''old''])) = Some [Num 200] \<and>
   specCheckpoint (Some 100) [120, 200] = Some 200"
proof -
  let ?items = "[testItem 200 ''b'', (testItem 150 ''hello'')\<lparr>category := Some [''nocrosspost'']\<rparr>,
       testItem 120 ''a'', testItem 90 ''old'']"
  let ?e = "testEnv (Some (Num 100)) ?items"
  have 1: "rssFeedResponse ?e = Inr ''<rss/>''" by (simp add: testEnv_def)
  have 2: "lastProcessedItem ?e = Inr (map_option Num (Some 100))" by (simp add: testEnv_def)
  have 3: "parseStringPromise ?e ''<rss/>'' = Inr (Some ?items)" by (simp add: testEnv_def)
  have 4: "\<forall>n. Some (100 :: int) = Some n \<longrightarrow> 0 < n" by simp
  have 5: "\<forall>it\<in>set ?items. \<exists>p>0. pubDate it = Num p" by (simp add: testItem_def)
  have 6: "\<forall>c. weightedLength ?e [c] \<le> 280" by (simp add: testEnv_def)
  have f: "map (theNum \<circ> pubDate)
      (filter (\<lambda>it. dispatched (map_option Num (Some 100)) it \<and> contentSegments ?e it \<noteq> Some [])
         (rev (slice0 ?items (MAX_ITEMS ?e)))) = [120, 200]"
    by code_simp
  have s: "specCheckpoint (Some 100) [120, 200] = Some 200" by code_simp
  from checkpoint_candidate [OF 1 2 3 4 5 6] f s
  have "\<exists>out. handler ?e = Some out \<and> putItems out = [Num 200]" by simp
  with 1 s show ?thesis by auto
qed

text \<open>
  C6. New items are dispatched in the reverse of the feed order: the calls of a run start
  with the first call of every dispatched item, taken in the order of the reversed
  feed (cut to \<open>MAX_ITEMS\<close>), so the oldest new item comes first. The calls for further
  segments follow as the responses arrive. In the scenario of the claim (no checkpoint,
  the feed holds an item published at 100 and then one published at 50) both items are
  dispatched, the one published at 50 first, and 100 is written.
\<close>

theorem dispatch_order:
  assumes "rssFeedResponse e = Inr feed"
    and "lastProcessedItem e = Inr lastProcessedPubDate"
    and "parseStringPromise e feed = Inr (Some items)"
    and "\<forall>c. weightedLength e [c] \<le> 280"
  shows "(\<exists>out. handler e = Some out \<and>
            prefix (firstPosts e lastProcessedPubDate 0 (rev (slice0 items (MAX_ITEMS e))))
              (posted out)) \<and>
         handler (testEnv None [testItem 100 ''new'', testItem 50 ''old'']) =
           Some \<lparr>completion = Returns,
                  posted = [\<lparr>sender = 0, iftttEventName = IFTTT_EVENT_NAME,
                              value1 = ''old'', value2 = None\<rparr>,
                            \<lparr>sender = 1, iftttEventName = IFTTT_EVENT_NAME,
                              value1 = ''new'', value2 = None\<rparr>],
                  putItems = [Num 100], logged = []\<rparr>"
proof
  from handler_total [OF assms] obtain st where
    st: "mapItems e lastProcessedPubDate (rev (slice0 items (MAX_ITEMS e)))
          \<lparr>newProcessedPubDate = lastProcessedPubDate, posts = [], postPromises = []\<rparr> = Some st"
    and h: "handler e = Some (commit e (settle (responses e) 0 st))" by blast
  from mapItems_posts [OF st]
  have "posts st = firstPosts e lastProcessedPubDate 0 (rev (slice0 items (MAX_ITEMS e)))"
    by simp
  with settle_posts [of st "responses e" 0] h
  show "\<exists>out. handler e = Some out \<and>
            prefix (firstPosts e lastProcessedPubDate 0 (rev (slice0 items (MAX_ITEMS e))))
              (posted out)"
    by simp
next
  show "handler (testEnv None [testItem 100 ''new'', testItem 50 ''old'']) =
           Some \<lparr>completion = Returns,
                  posted = [\<lparr>sender = 0, iftttEventName = IFTTT_EVENT_NAME,
                              value1 = ''old'', value2 = None\<rparr>,
                            \<lparr>sender = 1, iftttEventName = IFTTT_EVENT_NAME,
                              value1 = ''new'', value2 = None\<rparr>],
                  putItems = [Num 100], logged = []\<rparr>"
    by code_simp
qed

text \<open>
  C6 at the scenario: no checkpoint, the feed holds an item published at 100 and then one
  published at 50. Both are dispatched, the older one first, and 100 is written.
\<close>

theorem dispatch_order_witness:
  "rssFeedResponse (testEnv None [testItem 100 ''new'', testItem 50 ''old'']) = Inr ''<rss/>'' \<and>
   lastProcessedItem (testEnv None [testItem 100 ''new'', testItem 50 ''old'']) = Inr None \<and>
   handler (testEnv None [testItem 100 ''new'', testItem 50 ''old'']) =
     Some \<lparr>completion = Returns,
            posted = [\<lparr>sender = 0, iftttEventName = IFTTT_EVENT_NAME, value1 = ''old'', value2 = None\<rparr>,
                      \<lparr>sender = 1, iftttEventName = IFTTT_EVENT_NAME, value1 = ''new'', value2 = None\<rparr>],
            putItems = [Num 100], logged = []\<rparr> \<and>
   firstPosts (testEnv None [testItem 100 ''new'', testItem 50 ''old'']) None 0
       (rev (slice0 [testItem 100 ''new'', testItem 50 ''old''] (Num 20))) =
     [\<lparr>sender = 0, iftttEventName = IFTTT_EVENT_NAME, value1 = ''old'', value2 = None\<rparr>,
      \<lparr>sender = 1, iftttEventName = IFTTT_EVENT_NAME, value1 = ''new'', value2 = None\<rparr>]"
proof -
  let ?items = "[testItem 100 ''new'', testItem 50 ''old'']"
  let ?e = "testEnv None ?items"
  have 1: "rssFeedResponse ?e = Inr ''<rss/>''" by (simp add: testEnv_def)
  have 2: "lastProcessedItem ?e = Inr None" by (simp add: testEnv_def)
  have 3: "parseStringPromise ?e ''<rss/>'' = Inr (Some ?items)" by (simp add: testEnv_def)
  have 4: "\<forall>c. weightedLength ?e [c] \<le> 280" by (simp add: testEnv_def)
  have f: "firstPosts ?e None 0 (rev (slice0 ?items (Num 20))) =
     [\<lparr>sender = 0, iftttEventName = IFTTT_EVENT_NAME, value1 = ''old'', value2 = None\<rparr>,
      \<lparr>sender = 1, iftttEventName = IFTTT_EVENT_NAME, value1 = ''new'', value2 = None\<rparr>]"
    by code_simp
  from dispatch_order [OF 1 2 3 4] 1 2 f show ?thesis by simp
qed

text \<open>
  C8 fails as stated. A new item that has a media URL and whose text is empty has no
  segment: the loop of line 248 does not run, and no call at all is made for the item,
  so no payload carries its media URL.
\<close>

theorem media_without_text_counterexample:
  "media ((testItem 100 [])\<lparr>media := Some ''https://example.social/image.png''\<rparr>) =
     Some ''https://example.social/image.png'' \<and>
   dispatched None ((testItem 100 [])\<lparr>media := Some ''https://example.social/image.png''\<rparr>) \<and>
   handler (testEnv None
      [(testItem 100 [])\<lparr>media := Some ''https://example.social/image.png''\<rparr>]) =
     Some \<lparr>completion = Returns, posted = [], putItems = [], logged = []\<rparr>"
  by code_simp

text \<open>
  C8, amended. In every run and for every item of \<open>latestItems\<close>: calls are made for
  the item exactly when it is dispatched and its content has at least one segment; the
  first of these calls carries the item's media URL and goes to the event with image when
  the item has a media URL, and carries none and goes to the default event when it has
  not; every later call of the item carries no media URL and goes to the default event.
\<close>

theorem media_on_first_post:
  assumes "rssFeedResponse e = Inr feed"
    and "lastProcessedItem e = Inr lastProcessedPubDate"
    and "parseStringPromise e feed = Inr (Some items)"
    and "\<forall>c. weightedLength e [c] \<le> 280"
    and "latestItems = rev (slice0 items (MAX_ITEMS e))"
    and "k < length latestItems"
  shows "\<exists>out segments. handler e = Some out \<and>
     contentSegments e (latestItems ! k) = Some segments \<and>
     (postsOf k (posted out) = [] \<longleftrightarrow>
        \<not> dispatched lastProcessedPubDate (latestItems ! k) \<or> segments = []) \<and>
     (\<forall>p ps. postsOf k (posted out) = p # ps \<longrightarrow>
        value2 p = media (latestItems ! k) \<and>
        iftttEventName p =
          (if media (latestItems ! k) = None then IFTTT_EVENT_NAME
           else IFTTT_EVENT_NAME_WITH_IMAGE) \<and>
        (\<forall>q\<in>set ps. value2 q = None \<and> iftttEventName q = IFTTT_EVENT_NAME))"
proof -
  let ?it = "latestItems ! k"
  let ?plan = "itemPosts e lastProcessedPubDate k ?it"
  from handler_total [OF assms(1-4)] assms(5) obtain st where
    st: "mapItems e lastProcessedPubDate latestItems
          \<lparr>newProcessedPubDate = lastProcessedPubDate, posts = [], postPromises = []\<rparr> = Some st"
    and h: "handler e = Some (commit e (settle (responses e) 0 st))" by auto
  let ?out = "commit e (settle (responses e) 0 st)"
  from contentSegments_total [OF assms(4)] obtain segments where
    segs: "contentSegments e ?it = Some segments" by blast
  from final_posts(1) [OF st assms(6)] have pre: "prefix (postsOf k (posted ?out)) ?plan" by simp
  from final_posts(2) [OF st assms(6)] have ne: "?plan \<noteq> [] \<Longrightarrow> postsOf k (posted ?out) \<noteq> []"
    by simp
  have a: "postsOf k (posted ?out) = [] \<longleftrightarrow>
        \<not> dispatched lastProcessedPubDate ?it \<or> segments = []"
    using pre ne itemPosts_empty [OF segs, of lastProcessedPubDate k] by auto
  have b: "value2 p = media ?it \<and>
        iftttEventName p =
          (if media ?it = None then IFTTT_EVENT_NAME else IFTTT_EVENT_NAME_WITH_IMAGE) \<and>
        (\<forall>q\<in>set ps. value2 q = None \<and> iftttEventName q = IFTTT_EVENT_NAME)"
    if eq: "postsOf k (posted ?out) = p # ps" for p ps
  proof -
    from pre eq obtain zs where plan: "?plan = p # ps @ zs" by (auto simp: prefix_def)
    then obtain s rest where "p = webhookPost k True (media ?it) s"
      "map (webhookPost k False (media ?it)) rest = ps @ zs"
      by (auto simp: itemPosts_def split: if_splits option.splits list.splits)
    then have "p = webhookPost k True (media ?it) s"
      "\<forall>q\<in>set ps. \<exists>s'. q = webhookPost k False (media ?it) s'"
      by (auto simp: map_eq_append_conv)
    then show ?thesis by (auto simp: webhookPost_def Let_def)
  qed
  from h segs a b show ?thesis by blast
qed

text \<open>
  C8, amended, at an item with a media URL and the content \<open>AAA====BBB\<close>.
\<close>

theorem media_on_first_post_witness:
  "rssFeedResponse (testEnv None
      [(testItem 100 ''AAA====BBB'')\<lparr>media := Some ''https://example.social/image.png''\<rparr>])
     = Inr ''<rss/>'' \<and>
   (0 :: nat) < length [(testItem 100 ''AAA====BBB'')\<lparr>media := Some ''https://example.social/image.png''\<rparr>] \<and>
   handler (testEnv None
      [(testItem 100 ''AAA====BBB'')\<lparr>media := Some ''https://example.social/image.png''\<rparr>]) =
     Some \<lparr>completion = Returns,
            posted = [\<lparr>sender = 0, iftttEventName = IFTTT_EVENT_NAME_WITH_IMAGE, value1 = ''AAA'',
                        value2 = Some ''https://example.social/image.png''\<rparr>,
                      \<lparr>sender = 0, iftttEventName = IFTTT_EVENT_NAME, value1 = ''BBB'',
                        value2 = None\<rparr>],
            putItems = [Num 100], logged = []\<rparr>"
proof -
  let ?it = "(testItem 100 ''AAA====BBB'')\<lparr>media := Some ''https://example.social/image.png''\<rparr>"
  let ?e = "testEnv None [?it]"
  have 1: "rssFeedResponse ?e = Inr ''<rss/>''" by (simp add: testEnv_def)
  have 2: "lastProcessedItem ?e = Inr None" by (simp add: testEnv_def)
  have 3: "parseStringPromise ?e ''<rss/>'' = Inr (Some [?it])" by (simp add: testEnv_def)
  have 4: "\<forall>c. weightedLength ?e [c] \<le> 280" by (simp add: testEnv_def)
  have 5: "[?it] = rev (slice0 [?it] (MAX_ITEMS ?e))" by (simp add: testEnv_def)
  have 6: "(0 :: nat) < length [?it]" by simp
  have h: "handler ?e =
     Some \<lparr>completion = Returns,
            posted = [\<lparr>sender = 0, iftttEventName = IFTTT_EVENT_NAME_WITH_IMAGE, value1 = ''AAA'',
                        value2 = Some ''https://example.social/image.png''\<rparr>,
                      \<lparr>sender = 0, iftttEventName = IFTTT_EVENT_NAME, value1 = ''BBB'',
                        value2 = None\<rparr>],
            putItems = [Num 100], logged = []\<rparr>"
    by code_simp
  from media_on_first_post [OF 1 2 3 4 5 6] obtain out where "handler ?e = Some out" by blast
  with 1 6 h show ?thesis by simp
qed

text \<open>
  C10. When the content begins with the separator, the segmenter emits the empty string
  as a segment and goes on after the separator. The dispatcher makes one call for each
  segment, empty ones included: the texts of the calls made for a dispatched item are a
  prefix of its segments, never empty when there is a segment, and all of its segments
  when no request fails (a failed request ends the item's loop).
\<close>

theorem empty_segments_are_posted:
  assumes "rssFeedResponse e = Inr feed"
    and "lastProcessedItem e = Inr lastProcessedPubDate"
    and "parseStringPromise e feed = Inr (Some items)"
    and "\<forall>c. weightedLength e [c] \<le> 280"
    and "latestItems = rev (slice0 items (MAX_ITEMS e))"
    and "k < length latestItems"
    and "dispatched lastProcessedPubDate (latestItems ! k)"
  shows "(sep \<noteq> [] \<and> 0 < maxLen \<longrightarrow>
           segmentContent wl sep maxLen (sep @ rest) =
             map_option ((#) []) (segmentContent wl sep maxLen rest)) \<and>
         (\<exists>out segments. handler e = Some out \<and>
            contentSegments e (latestItems ! k) = Some segments \<and>
            prefix (map value1 (postsOf k (posted out))) segments \<and>
            (segments \<noteq> [] \<longrightarrow> postsOf k (posted out) \<noteq> []) \<and>
            ((\<forall>n. snd (responses e n) = None) \<longrightarrow>
               map value1 (postsOf k (posted out)) = segments))"
proof
  show "sep \<noteq> [] \<and> 0 < maxLen \<longrightarrow>
           segmentContent wl sep maxLen (sep @ rest) =
             map_option ((#) []) (segmentContent wl sep maxLen rest)"
  proof
    assume a: "sep \<noteq> [] \<and> 0 < maxLen"
    then have "indexOf (sep @ rest) sep = 0" by (simp add: indexOf_leading)
    with a show "segmentContent wl sep maxLen (sep @ rest) =
             map_option ((#) []) (segmentContent wl sep maxLen rest)"
      by (subst segmentContent_unfold) simp
  qed
next
  let ?it = "latestItems ! k"
  let ?plan = "itemPosts e lastProcessedPubDate k ?it"
  from handler_total [OF assms(1-4)] assms(5) obtain st where
    st: "mapItems e lastProcessedPubDate latestItems
          \<lparr>newProcessedPubDate = lastProcessedPubDate, posts = [], postPromises = []\<rparr> = Some st"
    and h: "handler e = Some (commit e (settle (responses e) 0 st))" by auto
  let ?out = "commit e (settle (responses e) 0 st)"
  from contentSegments_total [OF assms(4)] obtain segments where
    segs: "contentSegments e ?it = Some segments" by blast
  from itemPosts_values [OF segs assms(7)] have vals: "map value1 ?plan = segments" .
  from final_posts(1) [OF st assms(6)] have "prefix (postsOf k (posted ?out)) ?plan" by simp
  then have "prefix (map value1 (postsOf k (posted ?out))) (map value1 ?plan)"
    by (rule map_mono_prefix)
  with vals have 1: "prefix (map value1 (postsOf k (posted ?out))) segments" by simp
  from final_posts(2) [OF st assms(6)] vals
  have 2: "segments \<noteq> [] \<longrightarrow> postsOf k (posted ?out) \<noteq> []" by auto
  from final_posts(3) [OF st assms(6)] vals
  have 3: "(\<forall>n. snd (responses e n) = None) \<longrightarrow> map value1 (postsOf k (posted ?out)) = segments"
    by auto
  from h segs 1 2 3
  show "\<exists>out segments. handler e = Some out \<and>
            contentSegments e (latestItems ! k) = Some segments \<and>
            prefix (map value1 (postsOf k (posted out))) segments \<and>
            (segments \<noteq> [] \<longrightarrow> postsOf k (posted out) \<noteq> []) \<and>
            ((\<forall>n. snd (responses e n) = None) \<longrightarrow>
               map value1 (postsOf k (posted out)) = segments)"
    by blast
qed

text \<open>
  C10 at the content \<open>====A========\<close>: the segments are the empty string, \<open>A\<close> and
  the empty string, and three calls are made with these texts.
\<close>

theorem empty_segments_are_posted_witness:
  "rssFeedResponse (testEnv None [testItem 100 ''====A========'']) = Inr ''<rss/>'' \<and>
   dispatched None (testItem 100 ''====A========'') \<and>
   contentSegments (testEnv None [testItem 100 ''====A========''])
       (testItem 100 ''====A========'') = Some [[], ''A'', []] \<and>
   map_option (map value1 \<circ> posted) (handler (testEnv None [testItem 100 ''====A========'']))
     = Some [[], ''A'', []] \<and>
   segmentContent length ''===='' 280 (''===='' @ ''A========'') =
     map_option ((#) []) (segmentContent length ''===='' 280 ''A========'')"
proof -
  let ?it = "testItem 100 ''====A========''"
  let ?e = "testEnv None [?it]"
  have 1: "rssFeedResponse ?e = Inr ''<rss/>''" by (simp add: testEnv_def)
  have 2: "lastProcessedItem ?e = Inr None" by (simp add: testEnv_def)
  have 3: "parseStringPromise ?e ''<rss/>'' = Inr (Some [?it])" by (simp add: testEnv_def)
  have 4: "\<forall>c. weightedLength ?e [c] \<le> 280" by (simp add: testEnv_def)
  have 5: "[?it] = rev (slice0 [?it] (MAX_ITEMS ?e))" by (simp add: testEnv_def)
  have 6: "(0 :: nat) < length [?it]" by simp
  have 7: "dispatched None ([?it] ! 0)" by code_simp
  have c: "contentSegments ?e ?it = Some [[], ''A'', []]" by code_simp
  have h: "map_option (map value1 \<circ> posted) (handler ?e) = Some [[], ''A'', []]" by code_simp
  from empty_segments_are_posted [OF 1 2 3 4 5 6 7, of "''====''" 280 length "''A========''"]
  have "segmentContent length ''===='' 280 (''===='' @ ''A========'') =
     map_option ((#) []) (segmentContent length ''===='' 280 ''A========'')" by simp
  with 1 7 c h show ?thesis by simp
qed

text \<open>
  C3 fails as stated. The fetch of the feed (line 159) and the read of the checkpoint
  (lines 163--167) are outside the \<open>try\<close> block: when one of them fails the handler's
  promise is rejected with the error, and nothing is logged.
\<close>

theorem uncaught_fetch_error_counterexample:
  "handler ((testEnv None [testItem 100 ''hello''])\<lparr>rssFeedResponse := Inl FetchError\<rparr>) =
     Some \<lparr>completion = Throws FetchError, posted = [], putItems = [], logged = []\<rparr> \<and>
   handler ((testEnv None [testItem 100 ''hello''])\<lparr>lastProcessedItem := Inl CheckpointReadError\<rparr>) =
     Some \<lparr>completion = Throws CheckpointReadError, posted = [], putItems = [], logged = []\<rparr>"
  by code_simp

text \<open>
  C3, amended. An error of the fetch or of the checkpoint read escapes the handler,
  unlogged, with nothing dispatched and no checkpoint written. Once both have succeeded
  the handler returns normally whatever happens later (a parse error, failing webhook
  calls, a failing checkpoint write); a parse error is logged and ends the run with
  nothing dispatched and no checkpoint written.
\<close>

theorem handler_error_handling:
  "(rssFeedResponse e = Inl err \<longrightarrow>
      handler e = Some \<lparr>completion = Throws err, posted = [], putItems = [], logged = []\<rparr>) \<and>
   (rssFeedResponse e = Inr feed \<and> lastProcessedItem e = Inl err \<longrightarrow>
      handler e = Some \<lparr>completion = Throws err, posted = [], putItems = [], logged = []\<rparr>) \<and>
   (rssFeedResponse e = Inr feed \<and> lastProcessedItem e = Inr lastProcessedPubDate \<and>
    parseStringPromise e feed = Inl err \<longrightarrow>
      handler e = Some \<lparr>completion = Returns, posted = [], putItems = [],
                         logged = [AnErrorOccurred err]\<rparr>) \<and>
   (rssFeedResponse e = Inr feed \<and> lastProcessedItem e = Inr lastProcessedPubDate \<and>
    (\<forall>c. weightedLength e [c] \<le> 280) \<longrightarrow>
      (\<exists>out. handler e = Some out \<and> completion out = Returns))"
proof (intro conjI impI)
  assume "rssFeedResponse e = Inl err"
  then show "handler e = Some \<lparr>completion = Throws err, posted = [], putItems = [], logged = []\<rparr>"
    by (simp add: handler_def)
next
  assume "rssFeedResponse e = Inr feed \<and> lastProcessedItem e = Inl err"
  then show "handler e = Some \<lparr>completion = Throws err, posted = [], putItems = [], logged = []\<rparr>"
    by (simp add: handler_def)
next
  assume "rssFeedResponse e = Inr feed \<and> lastProcessedItem e = Inr lastProcessedPubDate \<and>
    parseStringPromise e feed = Inl err"
  then show "handler e = Some \<lparr>completion = Returns, posted = [], putItems = [],
                         logged = [AnErrorOccurred err]\<rparr>"
    by (simp add: handler_def)
next
  assume a: "rssFeedResponse e = Inr feed \<and> lastProcessedItem e = Inr lastProcessedPubDate \<and>
    (\<forall>c. weightedLength e [c] \<le> 280)"
  show "\<exists>out. handler e = Some out \<and> completion out = Returns"
  proof (cases "parseStringPromise e feed")
    case (Inl perr)
    with a show ?thesis by (simp add: handler_def)
  next
    case (Inr parsed)
    show ?thesis
    proof (cases parsed)
      case None
      with Inr a show ?thesis by (simp add: handler_def)
    next
      case (Some items)
      with Inr a handler_total [of e feed lastProcessedPubDate items] show ?thesis
        by (metis completion_commit)
    qed
  qed
qed

text \<open>
  C3, amended, at a failing fetch, a failing checkpoint read, a failing parse, and a run
  in which every webhook call and the checkpoint write fail.
\<close>

theorem handler_error_handling_witness:
  "rssFeedResponse ((testEnv None [testItem 100 ''hello''])\<lparr>rssFeedResponse := Inl FetchError\<rparr>)
     = Inl FetchError \<and>
   handler ((testEnv None [testItem 100 ''hello''])\<lparr>rssFeedResponse := Inl FetchError\<rparr>) =
     Some \<lparr>completion = Throws FetchError, posted = [], putItems = [], logged = []\<rparr> \<and>
   lastProcessedItem ((testEnv None [testItem 100 ''hello''])\<lparr>lastProcessedItem := Inl CheckpointReadError\<rparr>)
     = Inl CheckpointReadError \<and>
   handler ((testEnv None [testItem 100 ''hello''])\<lparr>lastProcessedItem := Inl CheckpointReadError\<rparr>) =
     Some \<lparr>completion = Throws CheckpointReadError, posted = [], putItems = [], logged = []\<rparr> \<and>
   parseStringPromise ((testEnv None [testItem 100 ''hello''])\<lparr>parseStringPromise := \<lambda>feed. Inl ParseError\<rparr>)
     ''<rss/>'' = Inl ParseError \<and>
   handler ((testEnv None [testItem 100 ''hello''])\<lparr>parseStringPromise := \<lambda>feed. Inl ParseError\<rparr>) =
     Some \<lparr>completion = Returns, posted = [], putItems = [], logged = [AnErrorOccurred ParseError]\<rparr> \<and>
   (\<forall>c. weightedLength ((testEnv None [testItem 100 ''hello''])
           \<lparr>responses := \<lambda>n. (0, Some DispatchError), putItem := \<lambda>v. Some CheckpointWriteError\<rparr>) [c] \<le> 280) \<and>
   handler ((testEnv None [testItem 100 ''hello''])
           \<lparr>responses := \<lambda>n. (0, Some DispatchError), putItem := \<lambda>v. Some CheckpointWriteError\<rparr>) =
     Some \<lparr>completion = Returns,
            posted = [\<lparr>sender = 0, iftttEventName = IFTTT_EVENT_NAME, value1 = ''hello'', value2 = None\<rparr>],
            putItems = [Num 100], logged = []\<rparr>"
proof -
  let ?e = "testEnv None [testItem 100 ''hello'']"
  let ?e1 = "?e\<lparr>rssFeedResponse := Inl FetchError\<rparr>"
  let ?e2 = "?e\<lparr>lastProcessedItem := Inl CheckpointReadError\<rparr>"
  let ?e3 = "?e\<lparr>parseStringPromise := \<lambda>feed. Inl ParseError\<rparr>"
  let ?e4 = "?e\<lparr>responses := \<lambda>n. (0, Some DispatchError), putItem := \<lambda>v. Some CheckpointWriteError\<rparr>"
  have 1: "rssFeedResponse ?e1 = Inl FetchError" by simp
  have 2: "rssFeedResponse ?e2 = Inr ''<rss/>'' \<and> lastProcessedItem ?e2 = Inl CheckpointReadError"
    by (simp add: testEnv_def)
  have 3: "rssFeedResponse ?e3 = Inr ''<rss/>'' \<and> lastProcessedItem ?e3 = Inr None \<and>
      parseStringPromise ?e3 ''<rss/>'' = Inl ParseError"
    by (simp add: testEnv_def)
  have 4: "rssFeedResponse ?e4 = Inr ''<rss/>'' \<and> lastProcessedItem ?e4 = Inr None \<and>
      (\<forall>c. weightedLength ?e4 [c] \<le> 280)"
    by (simp add: testEnv_def)
  have h: "handler ?e4 =
     Some \<lparr>completion = Returns,
            posted = [\<lparr>sender = 0, iftttEventName = IFTTT_EVENT_NAME, value1 = ''hello'', value2 = None\<rparr>],
            putItems = [Num 100], logged = []\<rparr>"
    by code_simp
  from handler_error_handling [where e = ?e1 and err = FetchError] 1
  have a: "handler ?e1 = Some \<lparr>completion = Throws FetchError, posted = [], putItems = [], logged = []\<rparr>"
    by blast
  from handler_error_handling [where e = ?e2 and feed = "''<rss/>''" and err = CheckpointReadError] 2
  have b: "handler ?e2 = Some \<lparr>completion = Throws CheckpointReadError, posted = [], putItems = [], logged = []\<rparr>"
    by blast
  from handler_error_handling [where e = ?e3 and feed = "''<rss/>''" and err = ParseError
      and lastProcessedPubDate = None] 3
  have c: "handler ?e3 = Some \<lparr>completion = Returns, posted = [], putItems = [], logged = [AnErrorOccurred ParseError]\<rparr>"
    by blast
  from handler_error_handling [where e = ?e4 and feed = "''<rss/>''"
      and lastProcessedPubDate = None] 4
  have d: "\<exists>out. handler ?e4 = Some out \<and> completion out = Returns" by blast
  from 1 2 3 4 a b c h show ?thesis by simp
qed

text \<open>
  C2 fails on the code at the checkpoint 0: \<open>!lastProcessedPubDate\<close> on line 208 is true
  for 0 as it is for \<open>null\<close>, so an item published at 0, or before, is treated as new
  and dispatched although its publication time is not greater than the checkpoint.
\<close>

theorem zero_checkpoint_redispatches:
  "isNew (Some (Num 0)) (Num 0) \<and>
   handler (testEnv (Some (Num 0)) [testItem 0 ''hello'']) =
     Some \<lparr>completion = Returns,
            posted = [\<lparr>sender = 0, iftttEventName = IFTTT_EVENT_NAME, value1 = ''hello'', value2 = None\<rparr>],
            putItems = [Num 0], logged = []\<rparr> \<and>
   isNew (Some (Num 0)) (Num (- 1)) \<and>
   map_option (map value1 \<circ> posted) (handler (testEnv (Some (Num 0)) [testItem (- 1) ''hello'']))
     = Some [''hello'']"
  by code_simp

text \<open>
  With a checkpoint that is a number other than 0, calls are only made for items
  published strictly after the checkpoint.
\<close>

lemma nonzero_checkpoint_filters:
  assumes "rssFeedResponse e = Inr feed"
    and "lastProcessedItem e = Inr (Some (Num c))" and "c \<noteq> 0"
    and "parseStringPromise e feed = Inr (Some items)"
    and "handler e = Some out"
    and "latestItems = rev (slice0 items (MAX_ITEMS e))"
    and "k < length latestItems"
    and "postsOf k (posted out) \<noteq> []"
  shows "\<exists>p. pubDate (latestItems ! k) = Num p \<and> c < p"
proof -
  from handler_dispatches [OF assms(1,2,4)] assms(5,6)
  have "map_option (\<lambda>st. commit e (settle (responses e) 0 st))
       (mapItems e (Some (Num c)) latestItems
          \<lparr>newProcessedPubDate = Some (Num c), posts = [], postPromises = []\<rparr>) = Some out"
    by simp
  then obtain st where
    st: "mapItems e (Some (Num c)) latestItems
          \<lparr>newProcessedPubDate = Some (Num c), posts = [], postPromises = []\<rparr> = Some st"
    and out: "out = commit e (settle (responses e) 0 st)" by auto
  from final_posts(1) [OF st assms(7)] out assms(8)
  have "itemPosts e (Some (Num c)) k (latestItems ! k) \<noteq> []" by auto
  then have "isNew (Some (Num c)) (pubDate (latestItems ! k))"
    by (auto simp: itemPosts_def dispatched_def split: if_splits)
  with assms(3) show ?thesis
    by (cases "pubDate (latestItems ! k)") (auto simp: isNew_def)
qed

end
